theory Spec2Isabelle
  imports Main "HOL-Library.Word"
begin

unbundle bit_operations_syntax

section \<open>Python values, errors and byte sequences\<close>

text \<open>
  A Python \<open>bytes\<close> object is a sequence of integers in \<open>range(256)\<close>: a list of
  8-bit words. Python integers are unbounded: \<open>int\<close>. Every exception the decoder can
  raise is a value of \<open>error\<close>, and a function that may raise returns \<open>error + 'a\<close>.
\<close>

type_synonym byte = "8 word"

datatype error = IndexError | StructError | ZeroDivisionError

text \<open>\<open>data[i]\<close>: a negative index counts from the end; out of range raises.\<close>

definition py_index :: "'a list \<Rightarrow> int \<Rightarrow> error + 'a" where
  "py_index xs i =
     (if 0 \<le> i \<and> i < int (length xs) then Inr (xs ! nat i)
      else if - int (length xs) \<le> i \<and> i < 0 then Inr (xs ! nat (i + int (length xs)))
      else Inl IndexError)"

text \<open>
  \<open>data[a:b]\<close>: each bound is clamped into \<open>0..len\<close> after a negative bound has been
  counted from the end; slicing never raises.
\<close>

definition slice_bound :: "nat \<Rightarrow> int \<Rightarrow> nat" where
  "slice_bound n i = (if i < 0 then nat (max (i + int n) 0) else min (nat i) n)"

definition py_slice :: "'a list \<Rightarrow> int \<Rightarrow> int \<Rightarrow> 'a list" where
  "py_slice xs a b =
     (let s = slice_bound (length xs) a; e = slice_bound (length xs) b
      in take (e - s) (drop s xs))"

section \<open>Varint decoder\<close>

text \<open>
  \<open>read_varint\<close>: the body of \<open>for i in range(9)\<close> is \<open>varint_loop\<close> over the list of
  the remaining indices, with the running \<open>value\<close>; running out of indices is the
  \<open>return value, 9\<close> after the loop.
\<close>

fun varint_loop :: "byte list \<Rightarrow> int \<Rightarrow> nat list \<Rightarrow> int \<Rightarrow> error + (int \<times> int)" where
  "varint_loop data offset [] val = Inr (val, 9)"
| "varint_loop data offset (i # rest) val =
     (if offset + int i \<ge> int (length data) then Inl IndexError
      else case py_index data (offset + int i) of
             Inl e \<Rightarrow> Inl e
           | Inr b \<Rightarrow>
               if b < 0x80 then Inr (push_bit 7 val OR uint b, int i + 1)
               else varint_loop data offset rest (push_bit 7 val OR uint (b AND 0x7F)))"

definition read_varint :: "byte list \<Rightarrow> int \<Rightarrow> error + (int \<times> int)" where
  "read_varint data offset = varint_loop data offset [0..<9] 0"

text \<open>
  The decoder as the specification words it (section 4.1): each of the first eight bytes
  contributes its low 7 bits, the high bit meaning continuation; a ninth byte, if
  reached, contributes its full 8 bits. \<open>k\<close> counts the bytes consumed so far, and
  \<open>None\<close> is the specification's \<open>Truncated\<close>.
\<close>

fun spec_varint :: "nat \<Rightarrow> int \<Rightarrow> byte list \<Rightarrow> (int \<times> int) option" where
  "spec_varint k acc [] = None"
| "spec_varint k acc (b # bs) =
     (if k = 8 then Some (acc * 256 + uint b, 9)
      else if b < 0x80 then Some (acc * 128 + uint b, int k + 1)
      else spec_varint (Suc k) (acc * 128 + uint b mod 128) bs)"

section \<open>Values and fixed-width readers\<close>

text \<open>
  The values a record holds. A float is kept as the 64 bits \<open>struct.unpack('>d', ...)\<close>
  reads, no arithmetic is done on it; a \<open>str\<close> is its sequence of code points.
\<close>

datatype pyval = PyNone | PyInt int | PyFloat "64 word" | PyBytes "byte list" | PyStr "nat list"

definition be_uint :: "byte list \<Rightarrow> int" where
  "be_uint bs = foldl (\<lambda>acc b. acc * 256 + uint b) 0 bs"

text \<open>
  \<open>int.from_bytes(bs, 'big', signed=True)\<close>: two's complement over the bytes given,
  whatever their number; the empty sequence is 0.
\<close>

definition from_bytes_signed :: "byte list \<Rightarrow> int" where
  "from_bytes_signed bs =
     (let u = be_uint bs; w = 8 * length bs
      in if 0 < w \<and> 2 ^ (w - 1) \<le> u then u - 2 ^ w else u)"

text \<open>
  \<open>struct.unpack(fmt, bs)\<close> raises \<open>struct.error\<close> unless \<open>bs\<close> has exactly the
  size of the format: 1 for \<open>>b\<close>, 2 for \<open>>h\<close> and \<open>>H\<close>, 4 for \<open>>i\<close> and \<open>>I\<close>,
  8 for \<open>>q\<close> and \<open>>d\<close>.
\<close>

definition unpack_signed :: "nat \<Rightarrow> byte list \<Rightarrow> error + int" where
  "unpack_signed sz bs = (if length bs = sz then Inr (from_bytes_signed bs) else Inl StructError)"

definition unpack_unsigned :: "nat \<Rightarrow> byte list \<Rightarrow> error + int" where
  "unpack_unsigned sz bs = (if length bs = sz then Inr (be_uint bs) else Inl StructError)"

definition unpack_b :: "byte list \<Rightarrow> error + int" where "unpack_b = unpack_signed 1"
definition unpack_h :: "byte list \<Rightarrow> error + int" where "unpack_h = unpack_signed 2"
definition unpack_i :: "byte list \<Rightarrow> error + int" where "unpack_i = unpack_signed 4"
definition unpack_q :: "byte list \<Rightarrow> error + int" where "unpack_q = unpack_signed 8"
definition unpack_H :: "byte list \<Rightarrow> error + int" where "unpack_H = unpack_unsigned 2"
definition unpack_I :: "byte list \<Rightarrow> error + int" where "unpack_I = unpack_unsigned 4"

definition unpack_d :: "byte list \<Rightarrow> error + 64 word" where
  "unpack_d bs = (if length bs = 8 then Inr (word_of_int (be_uint bs)) else Inl StructError)"

subsection \<open>\<open>bytes.decode('utf-8', errors='replace')\<close>\<close>

text \<open>
  The codec is the Python library's, not this repository's. It is modelled from the
  library's decoder: a well-formed sequence (no overlong form, no surrogate, nothing
  above U+10FFFF) gives its code point; otherwise the longest prefix that could still
  start a well-formed sequence (at least one byte) is replaced by U+FFFD and decoding
  resumes after it. The decoder is total: it never raises.
\<close>

definition is_cont :: "byte \<Rightarrow> bool" where
  "is_cont b \<longleftrightarrow> 0x80 \<le> b \<and> b < 0xC0"

definition cont_bits :: "byte \<Rightarrow> nat" where
  "cont_bits b = unat b mod 64"

fun utf8_decode :: "byte list \<Rightarrow> nat list" where
  "utf8_decode [] = []"
| "utf8_decode (b # bs) =
     (if b < 0x80 then unat b # utf8_decode bs
      else if b < 0xC2 then 0xFFFD # utf8_decode bs
      else if b < 0xE0 then
        (case bs of
           [] \<Rightarrow> [0xFFFD]
         | b2 # r2 \<Rightarrow>
             if is_cont b2 then (unat b mod 32 * 64 + cont_bits b2) # utf8_decode r2
             else 0xFFFD # utf8_decode bs)
      else if b < 0xF0 then
        (case bs of
           [] \<Rightarrow> [0xFFFD]
         | b2 # r2 \<Rightarrow>
             if \<not> is_cont b2 \<or> (if b2 < 0xA0 then b = 0xE0 else b = 0xED)
             then 0xFFFD # utf8_decode bs
             else (case r2 of
                     [] \<Rightarrow> [0xFFFD]
                   | b3 # r3 \<Rightarrow>
                       if is_cont b3
                       then (unat b mod 16 * 4096 + cont_bits b2 * 64 + cont_bits b3) # utf8_decode r3
                       else 0xFFFD # utf8_decode r2))
      else if b < 0xF5 then
        (case bs of
           [] \<Rightarrow> [0xFFFD]
         | b2 # r2 \<Rightarrow>
             if \<not> is_cont b2 \<or> (if b2 < 0x90 then b = 0xF0 else b = 0xF4)
             then 0xFFFD # utf8_decode bs
             else (case r2 of
                     [] \<Rightarrow> [0xFFFD]
                   | b3 # r3 \<Rightarrow>
                       if \<not> is_cont b3 then 0xFFFD # utf8_decode r2
                       else (case r3 of
                               [] \<Rightarrow> [0xFFFD]
                             | b4 # r4 \<Rightarrow>
                                 if is_cont b4
                                 then (unat b mod 8 * 262144 + cont_bits b2 * 4096
                                       + cont_bits b3 * 64 + cont_bits b4) # utf8_decode r4
                                 else 0xFFFD # utf8_decode r3)))
      else 0xFFFD # utf8_decode bs)"

section \<open>Serial-type decoder\<close>

definition parse_serial_type :: "byte list \<Rightarrow> int \<Rightarrow> int \<Rightarrow> error + (pyval \<times> int)" where
  "parse_serial_type data offset serial_type =
     (if serial_type \<ge> 12 \<and> serial_type mod 2 = 0 then
        (let len = (serial_type - 12) div 2
         in Inr (PyBytes (py_slice data offset (offset + len)), len))
      else if serial_type \<ge> 13 \<and> serial_type mod 2 = 1 then
        (let len = (serial_type - 13) div 2
         in Inr (PyStr (utf8_decode (py_slice data offset (offset + len))), len))
      else if serial_type = 0 then Inr (PyNone, 0)
      else if serial_type = 1 then
        (case unpack_b (py_slice data offset (offset + 1)) of
           Inl e \<Rightarrow> Inl e | Inr v \<Rightarrow> Inr (PyInt v, 1))
      else if serial_type = 2 then
        (case unpack_h (py_slice data offset (offset + 2)) of
           Inl e \<Rightarrow> Inl e | Inr v \<Rightarrow> Inr (PyInt v, 2))
      else if serial_type = 3 then
        Inr (PyInt (from_bytes_signed (py_slice data offset (offset + 3))), 3)
      else if serial_type = 4 then
        (case unpack_i (py_slice data offset (offset + 4)) of
           Inl e \<Rightarrow> Inl e | Inr v \<Rightarrow> Inr (PyInt v, 4))
      else if serial_type = 5 then
        Inr (PyInt (from_bytes_signed (py_slice data offset (offset + 6))), 6)
      else if serial_type = 6 then
        (case unpack_q (py_slice data offset (offset + 8)) of
           Inl e \<Rightarrow> Inl e | Inr v \<Rightarrow> Inr (PyInt v, 8))
      else if serial_type = 7 then
        (case unpack_d (py_slice data offset (offset + 8)) of
           Inl e \<Rightarrow> Inl e | Inr v \<Rightarrow> Inr (PyFloat v, 8))
      else if serial_type = 8 then Inr (PyInt 0, 0)
      else if serial_type = 9 then Inr (PyInt 1, 0)
      else Inr (PyNone, 0))"

section \<open>Record decoder\<close>

text \<open>
  The \<open>while bytes_read < header_length\<close> loop of \<open>parse_record\<close>. Each successful
  \<open>read_varint\<close> consumes at least one byte, so the loop ends.
\<close>

function header_loop :: "byte list \<Rightarrow> int \<Rightarrow> int \<Rightarrow> int \<Rightarrow> int list \<Rightarrow> error + int list" where
  "header_loop data header_length header_offset bytes_read serial_types =
     (if bytes_read < header_length then
        (case read_varint data header_offset of
           Inl e \<Rightarrow> Inl e
         | Inr (serial_type, n) \<Rightarrow>
             header_loop data header_length (header_offset + n) (bytes_read + n)
               (serial_types @ [serial_type]))
      else Inr serial_types)"
  by pat_completeness auto
termination
proof (relation "measure (\<lambda>(data, header_length, header_offset, bytes_read, serial_types).
                   nat (header_length - bytes_read))")
  show "wf (measure (\<lambda>(data, header_length, header_offset, bytes_read, serial_types).
                   nat (header_length - bytes_read)))"
    by simp
next
  fix data :: "byte list" and header_length header_offset bytes_read :: int
    and serial_types :: "int list" and x :: "int \<times> int" and serial_type n :: int
  assume less: "bytes_read < header_length"
    and rd: "read_varint data header_offset = Inr x" and x: "(serial_type, n) = x"
  have pos: "0 < k" if "varint_loop data header_offset idx v = Inr (w, k)" for idx v w k
    using that by (induction idx arbitrary: v) (auto split: if_splits sum.splits)
  from rd x have "0 < n"
    using pos [of "[0..<9]" 0 serial_type n] by (simp add: read_varint_def)
  with less
  show "((data, header_length, header_offset + n, bytes_read + n, serial_types @ [serial_type]),
         (data, header_length, header_offset, bytes_read, serial_types))
        \<in> measure (\<lambda>(data, header_length, header_offset, bytes_read, serial_types).
                   nat (header_length - bytes_read))"
    by simp
qed

text \<open>The \<open>for serial_type in serial_types\<close> loop of \<open>parse_record\<close>.\<close>

fun values_loop :: "byte list \<Rightarrow> int \<Rightarrow> int list \<Rightarrow> pyval list \<Rightarrow> error + pyval list" where
  "values_loop data value_offset [] vals = Inr vals"
| "values_loop data value_offset (serial_type # rest) vals =
     (case parse_serial_type data value_offset serial_type of
        Inl e \<Rightarrow> Inl e
      | Inr (v, len) \<Rightarrow> values_loop data (value_offset + len) rest (vals @ [v]))"

text \<open>
  The body of the \<open>try\<close> of \<open>parse_record\<close>: \<open>Inl\<close> is an exception raised in it,
  \<open>Inr None\<close> the explicit \<open>return None\<close>, \<open>Inr (Some values)\<close> the \<open>return values\<close>.
\<close>

definition parse_record_try :: "byte list \<Rightarrow> int \<Rightarrow> int \<Rightarrow> error + pyval list option" where
  "parse_record_try data offset payload_length =
     (case read_varint data offset of
        Inl e \<Rightarrow> Inl e
      | Inr (header_length, n) \<Rightarrow>
          if header_length > payload_length then Inr None
          else (case header_loop data header_length (offset + n) n [] of
                  Inl e \<Rightarrow> Inl e
                | Inr serial_types \<Rightarrow>
                    (case values_loop data (offset + header_length) serial_types [] of
                       Inl e \<Rightarrow> Inl e
                     | Inr vals \<Rightarrow> Inr (Some vals))))"

text \<open>\<open>except Exception: return None\<close>.\<close>

definition parse_record :: "byte list \<Rightarrow> int \<Rightarrow> int \<Rightarrow> pyval list option" where
  "parse_record data offset payload_length =
     (case parse_record_try data offset payload_length of Inl e \<Rightarrow> None | Inr r \<Rightarrow> r)"

section \<open>Page parser\<close>

text \<open>The first loop of \<open>parse_page\<close>, over \<open>range(num_cells)\<close>.\<close>

fun pointer_loop :: "byte list \<Rightarrow> int \<Rightarrow> nat list \<Rightarrow> int list \<Rightarrow> error + int list" where
  "pointer_loop page_data header_size [] cell_pointers = Inr cell_pointers"
| "pointer_loop page_data header_size (i # rest) cell_pointers =
     (let ptr_offset = header_size + int i * 2 in
      if ptr_offset + 2 > int (length page_data)
      then pointer_loop page_data header_size rest cell_pointers
      else (case unpack_H (py_slice page_data ptr_offset (ptr_offset + 2)) of
              Inl e \<Rightarrow> Inl e
            | Inr ptr \<Rightarrow> pointer_loop page_data header_size rest (cell_pointers @ [ptr])))"

text \<open>
  The body of the \<open>try\<close> in the second loop, up to the call of \<open>parse_record\<close>: the
  result is the \<open>record\<close> the code then tests.
\<close>

definition parse_cell :: "byte \<Rightarrow> byte list \<Rightarrow> int \<Rightarrow> error + pyval list option" where
  "parse_cell page_type page_data cell_pointer =
     (case read_varint page_data cell_pointer of
        Inl e \<Rightarrow> Inl e
      | Inr (payload_length, n) \<Rightarrow>
          (case (if page_type = 0x05
                 then (case read_varint page_data (cell_pointer + n) of
                         Inl e \<Rightarrow> Inl e
                       | Inr (left_child_page, n') \<Rightarrow> Inr (cell_pointer + n + n'))
                 else Inr (cell_pointer + n)) of
             Inl e \<Rightarrow> Inl e
           | Inr cell_offset \<Rightarrow>
               (case read_varint page_data cell_offset of
                  Inl e \<Rightarrow> Inl e
                | Inr (rowid, n'') \<Rightarrow>
                    Inr (parse_record
                           (py_slice page_data (cell_offset + n'')
                              (cell_offset + n'' + payload_length))
                           0 payload_length))))"

text \<open>
  The second loop: \<open>if record: records.append(record)\<close> appends a record that is
  neither \<open>None\<close> nor the empty list; \<open>except Exception: continue\<close> skips the cell.
\<close>

fun cells_loop :: "byte \<Rightarrow> byte list \<Rightarrow> int list \<Rightarrow> pyval list list \<Rightarrow> pyval list list" where
  "cells_loop page_type page_data [] records = records"
| "cells_loop page_type page_data (cell_pointer # rest) records =
     (case parse_cell page_type page_data cell_pointer of
        Inl e \<Rightarrow> cells_loop page_type page_data rest records
      | Inr None \<Rightarrow> cells_loop page_type page_data rest records
      | Inr (Some record) \<Rightarrow>
          if record \<noteq> [] then cells_loop page_type page_data rest (records @ [record])
          else cells_loop page_type page_data rest records)"

text \<open>
  \<open>parse_page\<close> mutates the list \<open>records\<close> it is given: the model takes the list and
  returns it extended, or the exception that leaves the function.
\<close>

definition parse_page ::
    "byte list \<Rightarrow> int \<Rightarrow> int \<Rightarrow> pyval list list \<Rightarrow> error + pyval list list" where
  "parse_page data page_number page_size records =
     (let page_offset = page_number * page_size;
          page_data = py_slice data page_offset (page_offset + page_size)
      in if length page_data = 0 then Inr records
         else (let page_type = page_data ! 0
               in if page_type \<notin> set [0x0D, 0x05] then Inr records
                  else (case unpack_H (py_slice page_data 3 5) of
                          Inl e \<Rightarrow> Inl e
                        | Inr num_cells \<Rightarrow>
                            (let header_size = (if page_type = 0x0D then 8 else 12)
                             in case pointer_loop page_data header_size [0..<nat num_cells] [] of
                                  Inl e \<Rightarrow> Inl e
                                | Inr cell_pointers \<Rightarrow>
                                    Inr (cells_loop page_type page_data cell_pointers records)))))"

section \<open>Free-list walker\<close>

text \<open>The lines \<open>get_freelist_pages\<close> prints, with the numbers they carry.\<close>

datatype diag =
    PageOffsetOutOfBounds int
  | InsufficientTrunk int
  | InsufficientLeaf int int
  | ErrorReading error

text \<open>
  The inner \<open>for i in range(n)\<close> loop, from index \<open>i\<close> on. It works on the list
  \<open>freelist_pages\<close>, the counter \<open>pages_collected\<close> and the printed lines; the first
  component of the result is the exception that left the loop, if any.
\<close>

function leaf_loop ::
    "byte list \<Rightarrow> int \<Rightarrow> int \<Rightarrow> int \<Rightarrow> int list \<Rightarrow> int \<Rightarrow> diag list
      \<Rightarrow> error option \<times> int list \<times> int \<times> diag list" where
  "leaf_loop page_data next_trunk_page n i freelist_pages pages_collected printed =
     (if 0 \<le> i \<and> i < n then
        (let offset = 8 + i * 4 in
         if offset + 4 > int (length page_data)
         then (None, freelist_pages, pages_collected,
               printed @ [InsufficientLeaf i next_trunk_page])
         else (case unpack_I (py_slice page_data offset (offset + 4)) of
                 Inl e \<Rightarrow> (Some e, freelist_pages, pages_collected, printed)
               | Inr page_num \<Rightarrow>
                   leaf_loop page_data next_trunk_page n (i + 1)
                     (freelist_pages @ [page_num - 1]) (pages_collected + 1) printed))
      else (None, freelist_pages, pages_collected, printed))"
  by pat_completeness auto
termination
  by (relation "measure (\<lambda>(page_data, next_trunk_page, n, i, freelist_pages, pages_collected,
                            printed). nat (n - i))") auto

text \<open>
  The \<open>while\<close> loop. It may run forever, so it is a partial function: \<open>None\<close> means that
  the loop never leaves. \<open>Some\<close> carries the list returned and the lines printed.
\<close>

partial_function (option) freelist_while ::
    "byte list \<Rightarrow> int \<Rightarrow> int \<Rightarrow> int \<Rightarrow> int \<Rightarrow> int list \<Rightarrow> diag list
      \<Rightarrow> (int list \<times> diag list) option" where
  "freelist_while data page_size total_freelist_pages next_trunk_page pages_collected
       freelist_pages printed =
     (if next_trunk_page \<noteq> 0 \<and> pages_collected < total_freelist_pages then
        (let page_offset = (next_trunk_page - 1) * page_size in
         if page_offset + page_size > int (length data)
         then Some (freelist_pages, printed @ [PageOffsetOutOfBounds page_offset])
         else (let page_data = py_slice data page_offset (page_offset + page_size);
                   freelist_pages' = freelist_pages @ [next_trunk_page - 1]
               in if length page_data < 8
                  then Some (freelist_pages', printed @ [InsufficientTrunk next_trunk_page])
                  else (case unpack_I (py_slice page_data 0 4) of
                          Inl e \<Rightarrow> Some (freelist_pages', printed @ [ErrorReading e])
                        | Inr next_trunk_page' \<Rightarrow>
                            (case unpack_I (py_slice page_data 4 8) of
                               Inl e \<Rightarrow> Some (freelist_pages', printed @ [ErrorReading e])
                             | Inr n \<Rightarrow>
                                 (case leaf_loop page_data next_trunk_page' n 0 freelist_pages'
                                         pages_collected printed of
                                    (Some e, fp, pc, pr) \<Rightarrow> Some (fp, pr @ [ErrorReading e])
                                  | (None, fp, pc, pr) \<Rightarrow>
                                      freelist_while data page_size total_freelist_pages
                                        next_trunk_page' pc fp pr)))))
      else Some (freelist_pages, printed))"

definition get_freelist_pages ::
    "byte list \<Rightarrow> int \<Rightarrow> int \<Rightarrow> int \<Rightarrow> (int list \<times> diag list) option" where
  "get_freelist_pages data page_size freelist_trunk_page total_freelist_pages =
     freelist_while data page_size total_freelist_pages freelist_trunk_page 0 [] []"

section \<open>Recovery driver\<close>

definition magic :: "byte list" where
  "magic = [0x53, 0x51, 0x4C, 0x69, 0x74, 0x65, 0x20, 0x66,
            0x6F, 0x72, 0x6D, 0x61, 0x74, 0x20, 0x33, 0x00]"

text \<open>\<open>for page_number in ...: parse_page(data, page_number, page_size, records)\<close>.\<close>

fun parse_pages ::
    "byte list \<Rightarrow> int \<Rightarrow> int list \<Rightarrow> pyval list list \<Rightarrow> error + pyval list list" where
  "parse_pages data page_size [] records = Inr records"
| "parse_pages data page_size (page_number # rest) records =
     (case parse_page data page_number page_size records of
        Inl e \<Rightarrow> Inl e
      | Inr records' \<Rightarrow> parse_pages data page_size rest records')"

text \<open>
  How a run of \<open>main\<close> ends, once the file is read into \<open>data\<close>: \<open>sys.exit(1)\<close> after a
  message, an uncaught exception, or the records handed to the output stage (which is
  not modelled). \<open>None\<close> is a run that never ends.
\<close>

datatype outcome = Exit string | Uncaught error | Recovered "pyval list list"

definition main :: "byte list \<Rightarrow> outcome option" where
  "main data =
     (if length data < 100 then Some (Exit ''File is too small to be a valid SQLite database.'')
      else
        (let file_header = py_slice data 0 100 in
         if py_slice file_header 0 16 \<noteq> magic
         then Some (Exit ''Not a valid SQLite 3 database file.'')
         else
           (case unpack_H (py_slice file_header 16 18) of
              Inl e \<Rightarrow> Some (Uncaught e)
            | Inr page_size0 \<Rightarrow>
           (let page_size = (if page_size0 = 1 then 65536 else page_size0) in
            case unpack_I (py_slice file_header 32 36) of
              Inl e \<Rightarrow> Some (Uncaught e)
            | Inr freelist_trunk_page \<Rightarrow>
           (case unpack_I (py_slice file_header 36 40) of
              Inl e \<Rightarrow> Some (Uncaught e)
            | Inr total_freelist_pages \<Rightarrow>
           (case (if freelist_trunk_page \<noteq> 0
                  then get_freelist_pages data page_size freelist_trunk_page total_freelist_pages
                  else Some ([], [])) of
              None \<Rightarrow> None
            | Some (freelist_pages, printed) \<Rightarrow>
                if page_size = 0 then Some (Uncaught ZeroDivisionError)
                else
                  (let num_pages = int (length data) div page_size in
                   case parse_pages data page_size (map int [0..<nat num_pages]) [] of
                     Inl e \<Rightarrow> Some (Uncaught e)
                   | Inr records \<Rightarrow>
                       (case (if freelist_pages \<noteq> []
                              then parse_pages data page_size freelist_pages records
                              else Inr records) of
                          Inl e \<Rightarrow> Some (Uncaught e)
                        | Inr records' \<Rightarrow>
                            if records' = [] then Some (Exit ''No records recovered.'')
                            else Some (Recovered records')))))))))"

section \<open>Auxiliary notions for the page parser\<close>

text \<open>
  The cell pointers \<open>parse_page\<close> collects on a page (none when it returns early or
  raises), and what the second loop appends for one cell pointer.
\<close>

definition page_cell_pointers :: "byte list \<Rightarrow> int list" where
  "page_cell_pointers page_data =
     (if page_data = [] \<or> page_data ! 0 \<notin> set [0x0D, 0x05] then []
      else case unpack_H (py_slice page_data 3 5) of
             Inl e \<Rightarrow> []
           | Inr num_cells \<Rightarrow>
               (case pointer_loop page_data (if page_data ! 0 = 0x0D then 8 else 12)
                       [0..<nat num_cells] [] of
                  Inl e \<Rightarrow> []
                | Inr cell_pointers \<Rightarrow> cell_pointers))"

definition cell_records :: "byte \<Rightarrow> byte list \<Rightarrow> int \<Rightarrow> pyval list list" where
  "cell_records page_type page_data cell_pointer = cells_loop page_type page_data [cell_pointer] []"

text \<open>
  The bytes \<open>parse_page\<close> reads for the cell at \<open>cell_pointer\<close> are those from
  \<open>cell_pointer\<close> up to \<open>cell_end\<close>: the varints and the payload; where a varint
  cannot be read, the reads ran to the end of the page. The page header and the cell
  pointer array end at \<open>pointer_array_end\<close>.
\<close>

definition cell_end :: "byte \<Rightarrow> byte list \<Rightarrow> int \<Rightarrow> int" where
  "cell_end page_type page_data cell_pointer =
     (case read_varint page_data cell_pointer of
        Inl e \<Rightarrow> int (length page_data)
      | Inr (payload_length, n) \<Rightarrow>
          (case (if page_type = 0x05
                 then (case read_varint page_data (cell_pointer + n) of
                         Inl e \<Rightarrow> Inl e
                       | Inr (left_child_page, n') \<Rightarrow> Inr (cell_pointer + n + n'))
                 else Inr (cell_pointer + n)) of
             Inl e \<Rightarrow> int (length page_data)
           | Inr cell_offset \<Rightarrow>
               (case read_varint page_data cell_offset of
                  Inl e \<Rightarrow> int (length page_data)
                | Inr (rowid, n'') \<Rightarrow>
                    min (int (length page_data)) (cell_offset + n'' + payload_length))))"

definition pointer_array_end :: "byte list \<Rightarrow> int" where
  "pointer_array_end page_data =
     (let header_size = (if page_data \<noteq> [] \<and> page_data ! 0 = 0x0D then 8 else 12)
      in case unpack_H (py_slice page_data 3 5) of
           Inl e \<Rightarrow> header_size
         | Inr num_cells \<Rightarrow> header_size + 2 * num_cells)"

text \<open>
  The interior cell as the specification words it (sections 3 and 4.4): a
  payload-length varint, a varint taken as the left-child page number and discarded, a
  rowid varint, discarded, then the next \<open>payload_length\<close> bytes, handed to the record
  decoder. \<open>None\<close>: no tuple.
\<close>

definition interior_cell_spec :: "byte list \<Rightarrow> int \<Rightarrow> pyval list option" where
  "interior_cell_spec page cell_pointer =
     (case read_varint page cell_pointer of
        Inl e \<Rightarrow> None
      | Inr (payload_length, n1) \<Rightarrow>
          (case read_varint page (cell_pointer + n1) of
             Inl e \<Rightarrow> None
           | Inr (left_child, n2) \<Rightarrow>
               (case read_varint page (cell_pointer + n1 + n2) of
                  Inl e \<Rightarrow> None
                | Inr (rowid, n3) \<Rightarrow>
                    parse_record
                      (take (nat payload_length) (drop (nat (cell_pointer + n1 + n2 + n3)) page))
                      0 payload_length)))"

section \<open>Auxiliary notions for the record decoder\<close>



section \<open>The on-disk form of a value\<close>

text \<open>
  The encoder is not part of the program: it is the on-disk form of the table in
  section 3 of the specification, written down to state the round trip. An integer of
  \<open>w\<close> bytes is big-endian two's complement, a float its 8 bytes, a blob its bytes,
  a text its UTF-8 bytes. Only scalar values (no surrogate, at most U+10FFFF) have a
  UTF-8 form.
\<close>

definition scalar_value :: "nat \<Rightarrow> bool" where
  "scalar_value c \<longleftrightarrow> c < 0x110000 \<and> \<not> (0xD800 \<le> c \<and> c < 0xE000)"

definition byte_of :: "nat \<Rightarrow> byte" where
  "byte_of n = of_nat n"

definition utf8_encode_cp :: "nat \<Rightarrow> byte list" where
  "utf8_encode_cp c =
     (if c < 0x80 then [byte_of c]
      else if c < 0x800 then [byte_of (0xC0 + c div 64), byte_of (0x80 + c mod 64)]
      else if c < 0x10000 then
        [byte_of (0xE0 + c div 4096), byte_of (0x80 + c div 64 mod 64), byte_of (0x80 + c mod 64)]
      else [byte_of (0xF0 + c div 262144), byte_of (0x80 + c div 4096 mod 64),
            byte_of (0x80 + c div 64 mod 64), byte_of (0x80 + c mod 64)])"

definition utf8_encode :: "nat list \<Rightarrow> byte list" where
  "utf8_encode s = concat (map utf8_encode_cp s)"

fun be_bytes :: "nat \<Rightarrow> int \<Rightarrow> byte list" where
  "be_bytes 0 x = []"
| "be_bytes (Suc w) x = be_bytes w (x div 256) @ [word_of_int x]"

definition int_width :: "int \<Rightarrow> nat" where
  "int_width c = (if c = 1 then 1 else if c = 2 then 2 else if c = 3 then 3
                  else if c = 4 then 4 else if c = 5 then 6 else if c = 6 then 8 else 0)"

text \<open>
  \<open>value_of_code c v\<close>: \<open>v\<close> is a value of the type that serial-type code \<open>c\<close>
  stands for, and of the length \<open>c\<close> declares.
\<close>

fun encode_value :: "int \<Rightarrow> pyval \<Rightarrow> byte list" where
  "encode_value c PyNone = []"
| "encode_value c (PyInt i) = be_bytes (int_width c) i"
| "encode_value c (PyFloat f) = be_bytes 8 (uint f)"
| "encode_value c (PyBytes bs) = bs"
| "encode_value c (PyStr s) = utf8_encode s"

fun value_of_code :: "int \<Rightarrow> pyval \<Rightarrow> bool" where
  "value_of_code c PyNone \<longleftrightarrow> c = 0"
| "value_of_code c (PyInt i) \<longleftrightarrow>
     (c \<in> {1, 2, 3, 4, 5, 6} \<and> - (2 ^ (8 * int_width c - 1)) \<le> i \<and> i < 2 ^ (8 * int_width c - 1))
     \<or> (c = 8 \<and> i = 0) \<or> (c = 9 \<and> i = 1)"
| "value_of_code c (PyFloat f) \<longleftrightarrow> c = 7"
| "value_of_code c (PyBytes bs) \<longleftrightarrow> 12 \<le> c \<and> even c \<and> int (length bs) = (c - 12) div 2"
| "value_of_code c (PyStr s) \<longleftrightarrow>
     13 \<le> c \<and> odd c \<and> (\<forall>cp\<in>set s. scalar_value cp)
     \<and> int (length (utf8_encode s)) = (c - 13) div 2"

section \<open>Properties\<close>

declare header_loop.simps [simp del]
declare leaf_loop.simps [simp del]
declare freelist_while.simps [code]

lemma upt_9: "[0..<9] = [0, 1, 2, 3, 4, 5, 6, 7, 8]"
  by (simp add: upt_rec)

lemma py_slice_take_drop:
  "0 \<le> a \<Longrightarrow> 0 \<le> l \<Longrightarrow> py_slice xs a (a + l) = take (nat l) (drop (nat a) xs)"
  by (auto simp: py_slice_def slice_bound_def Let_def min_def nat_add_distrib)

lemma length_py_slice:
  "0 \<le> a \<Longrightarrow> 0 \<le> l \<Longrightarrow> length (py_slice xs a (a + l)) = min (nat l) (length xs - nat a)"
  by (simp add: py_slice_take_drop)

subsection \<open>Varint decoder\<close>

text \<open>
  Where the specification's decoder stops within the first eight bytes, \<open>read_varint\<close>
  returns the same value and the same count.
\<close>

lemma low7_mod: "uint ((b :: byte) AND 0x7F) = uint b mod 128"
proof -
  have "(0x7F :: byte) = mask 7"
    by (simp add: mask_eq_exp_minus_1)
  then have "b AND 0x7F = take_bit 7 b"
    by (simp add: take_bit_eq_mask)
  then have "uint (b AND 0x7F) = take_bit 7 (uint b)"
    by (simp only: unsigned_take_bit_eq)
  then show ?thesis
    by (simp add: take_bit_eq_mod)
qed

lemma shift_or_add: "0 \<le> b \<Longrightarrow> b < 128 \<Longrightarrow> push_bit 7 (a::int) OR b = a * 128 + b"
proof -
  assume b: "0 \<le> b" "b < 128"
  then have tb: "take_bit 7 b = b"
    by (simp add: take_bit_int_eq_self)
  have "push_bit 7 a + take_bit 7 b = push_bit 7 a OR take_bit 7 b"
    by (rule disjunctive_add) (auto simp: bit_push_bit_iff bit_take_bit_iff)
  with tb show ?thesis
    by (simp add: push_bit_eq_mult)
qed

lemma varint_loop_agrees:
  assumes "spec_varint k acc (drop (nat offset + k) data) = Some (v, n)"
    and "n \<le> 8" and "0 \<le> offset" and "k \<le> 8"
  shows "varint_loop data offset [k..<9] acc = Inr (v, n)"
  using assms
proof (induction "8 - k" arbitrary: k acc)
  case 0
  then have "k = 8" by simp
  with "0.prems" show ?case
    by (cases "drop (nat offset + 8) data") auto
next
  case (Suc m)
  then have k: "k < 8" by simp
  then have idx: "[k..<9] = k # [Suc k..<9]"
    by (simp add: upt_conv_Cons)
  show ?case
  proof (cases "drop (nat offset + k) data")
    case Nil
    with Suc.prems show ?thesis by simp
  next
    case (Cons b bs)
    then have inr: "nat offset + k < length data"
      by (cases "nat offset + k < length data") simp_all
    with Cons have b: "data ! (nat offset + k) = b" and bs: "bs = drop (nat offset + Suc k) data"
      using Cons_nth_drop_Suc [of "nat offset + k" data] by simp_all
    from inr Suc.prems(3) have py: "py_index data (offset + int k) = Inr b"
      and nb: "\<not> (offset + int k \<ge> int (length data))"
      using b by (simp_all add: py_index_def nat_add_distrib)
    from k have k8: "k \<noteq> 8"
      by simp
    show ?thesis
    proof (cases "b < 0x80")
      case True
      then have "uint b < 128"
        by (simp add: word_less_alt)
      then have "push_bit 7 acc OR uint b = acc * 128 + uint b"
        by (intro shift_or_add) simp_all
      with True Suc.prems(1) Cons k8 py nb show ?thesis
        by (simp add: idx)
    next
      case False
      have "push_bit 7 acc OR uint (b AND 0x7F) = acc * 128 + uint b mod 128"
        unfolding low7_mod by (intro shift_or_add) simp_all
      moreover from False Suc.prems(1) Cons k8 bs
      have "spec_varint (Suc k) (acc * 128 + uint b mod 128) (drop (nat offset + Suc k) data)
              = Some (v, n)"
        by simp
      from Suc.hyps(1) [OF _ this Suc.prems(2,3)] Suc.hyps(2) k
      have "varint_loop data offset [Suc k..<9] (acc * 128 + uint b mod 128) = Inr (v, n)"
        by simp
      ultimately show ?thesis
        using False py nb by (simp add: idx)
    qed
  qed
qed

lemma read_varint_agrees_up_to_eight:
  assumes "spec_varint 0 0 (drop (nat offset) data) = Some (v, n)" and "n \<le> 8" and "0 \<le> offset"
  shows "read_varint data offset = Inr (v, n)"
  using varint_loop_agrees [of 0 0 offset data v n] assms by (simp add: read_varint_def)

text \<open>
  C1. A varint of nine bytes: the specification gives the ninth byte its full 8 bits
  (after eight bytes \<open>0x80\<close>, a ninth byte \<open>0xFF\<close> decodes to 255); \<open>read_varint\<close>
  treats the ninth byte as the others, shifts by 7 and keeps its low 7 bits, and
  returns 127.
\<close>

theorem read_varint_ninth_byte:
  "read_varint [0x80, 0x80, 0x80, 0x80, 0x80, 0x80, 0x80, 0x80, 0xFF] 0 = Inr (127, 9)
   \<and> spec_varint 0 0 [0x80, 0x80, 0x80, 0x80, 0x80, 0x80, 0x80, 0x80, 0xFF] = Some (255, 9)"
  by (simp add: read_varint_def upt_9 py_index_def)

subsection \<open>Page parser: faults that leave it\<close>

text \<open>
  C2. A page of one to four bytes whose first byte is a table page type: the read of
  the cell count, \<open>struct.unpack('>H', page_data[3:5])\<close>, is outside every \<open>try\<close> and
  gets fewer than two bytes, so \<open>struct.error\<close> leaves \<open>parse_page\<close>.
\<close>

theorem parse_page_short_page_raises:
  "parse_page [0x0D, 0, 0, 0] 0 4 [] = Inl StructError"
  by (simp add: parse_page_def py_slice_def slice_bound_def unpack_H_def unpack_unsigned_def)

text \<open>
  The same through \<open>main\<close>: a file of 100 bytes with a valid magic and the page size
  4 in its header; byte 20, the first of page 5, is \<open>0x0D\<close>. The exception is not
  caught anywhere.
\<close>

lemma main_short_page_uncaught:
  "main (magic @ [0, 4, 0, 0, 0x0D] @ replicate 79 0) = Some (Uncaught StructError)"
  by code_simp

subsection \<open>Free-list walker: a trunk cycle\<close>

text \<open>
  A trunk page that lies within the file, names itself as the next trunk and holds no
  leaf: the loop comes back to the state it started from.
\<close>

lemma self_trunk_diverges:
  assumes "nt \<noteq> 0" and "pc < tot"
    and "\<not> (nt - 1) * ps + ps > int (length data)"
    and "\<not> length (py_slice data ((nt - 1) * ps) ((nt - 1) * ps + ps)) < 8"
    and "unpack_I (py_slice (py_slice data ((nt - 1) * ps) ((nt - 1) * ps + ps)) 0 4) = Inr nt"
    and "unpack_I (py_slice (py_slice data ((nt - 1) * ps) ((nt - 1) * ps + ps)) 4 8) = Inr 0"
  shows "freelist_while data ps tot nt pc fp pr = None"
proof (rule ccontr)
  assume "freelist_while data ps tot nt pc fp pr \<noteq> None"
  then obtain y where y: "freelist_while data ps tot nt pc fp pr = Some y"
    by auto
  have "\<not> (d' = data \<and> ps' = ps \<and> tot' = tot \<and> nt' = nt \<and> pc' = pc)"
    if "freelist_while d' ps' tot' nt' pc' fp' pr' = Some y'" for d' ps' tot' nt' pc' fp' pr' y'
  proof (induct rule: freelist_while.raw_induct [OF _ that])
    case (1 w d' ps' tot' nt' pc' fp' pr' y')
    show ?case
    proof
      assume a: "d' = data \<and> ps' = ps \<and> tot' = tot \<and> nt' = nt \<and> pc' = pc"
      with "1.hyps"(2) assms have "w d' ps' tot' nt' pc' (fp' @ [nt - 1]) pr' = Some y'"
        by (simp add: Let_def leaf_loop.simps)
      from "1.hyps"(1) [OF this] a show False by simp
    qed
  qed
  from this [OF y] show False by simp
qed

text \<open>
  C3. One trunk page that names itself as the next trunk and holds no leaf: only leaves
  are counted in \<open>pages_collected\<close>, so the declared total (here 1) is never reached
  and the \<open>while\<close> loop never leaves.
\<close>

theorem get_freelist_pages_cycle_diverges:
  "get_freelist_pages [0, 0, 0, 1, 0, 0, 0, 0] 8 1 1 = None"
  unfolding get_freelist_pages_def
  by (rule self_trunk_diverges)
     (simp_all add: py_slice_def slice_bound_def unpack_I_def unpack_unsigned_def be_uint_def)

text \<open>
  The same through \<open>main\<close>: a file of two pages of 128 bytes whose header names page
  2 as the first trunk and declares one free page, page 2 naming itself as the next
  trunk. The run never ends.
\<close>

lemma main_trunk_cycle_diverges: "main (magic @ [0x00, 0x80] @ replicate 14 0 @ [0, 0, 0, 2, 0, 0, 0, 1] @ replicate 88 0
               @ [0, 0, 0, 2, 0, 0, 0, 0] @ replicate 120 0) = None"
proof -
  let ?file = "magic @ [0x00, 0x80] @ replicate 14 0 @ [0, 0, 0, 2, 0, 0, 0, 1] @ replicate 88 0
               @ [0, 0, 0, 2, 0, 0, 0, 0] @ replicate 120 0 :: byte list"
  have hdr: "length ?file = 256" "py_slice (py_slice ?file 0 100) 0 16 = magic"
    "unpack_H (py_slice (py_slice ?file 0 100) 16 18) = Inr 128"
    "unpack_I (py_slice (py_slice ?file 0 100) 32 36) = Inr 2"
    "unpack_I (py_slice (py_slice ?file 0 100) 36 40) = Inr 1"
    by code_simp+
  have pg: "\<not> (2 - 1) * 128 + 128 > int (length ?file)"
    "\<not> length (py_slice ?file ((2 - 1) * 128) ((2 - 1) * 128 + 128)) < 8"
    "unpack_I (py_slice (py_slice ?file ((2 - 1) * 128) ((2 - 1) * 128 + 128)) 0 4) = Inr 2"
    "unpack_I (py_slice (py_slice ?file ((2 - 1) * 128) ((2 - 1) * 128 + 128)) 4 8) = Inr 0"
    by code_simp+
  have "get_freelist_pages ?file 128 2 1 = None"
    unfolding get_freelist_pages_def
    by (rule self_trunk_diverges [OF _ _ pg]) simp_all
  with hdr show ?thesis
    by (simp add: main_def del: append.simps replicate.simps)
qed

subsection \<open>Serial-type decoder: when it fails\<close>






subsection \<open>Recovery driver: fatal headers\<close>

text \<open>
  C7. On an input shorter than 100 bytes, and on an input whose first 16 bytes are not
  the magic, \<open>main\<close> prints one of its two messages and exits with status 1: no page
  is parsed and no record is handed on.
\<close>

theorem main_fatal_on_bad_header:
  "length data < 100 \<or> take 16 data \<noteq> magic \<Longrightarrow>
   main data = Some (Exit ''File is too small to be a valid SQLite database.'')
   \<or> main data = Some (Exit ''Not a valid SQLite 3 database file.'')"
  by (auto simp: main_def Let_def py_slice_def slice_bound_def)

theorem main_fatal_on_bad_header_witness:
  "length ([] :: byte list) < 100
   \<and> main [] = Some (Exit ''File is too small to be a valid SQLite database.'')
   \<and> take 16 (replicate 100 (0 :: byte)) \<noteq> magic
   \<and> main (replicate 100 0) = Some (Exit ''Not a valid SQLite 3 database file.'')"
proof -
  have m: "take 16 (replicate 100 (0 :: byte)) \<noteq> magic"
    by code_simp
  from main_fatal_on_bad_header [of "[]"] main_fatal_on_bad_header [of "replicate 100 0"] m
  show ?thesis
    by (simp add: main_def py_slice_def slice_bound_def)
qed

subsection \<open>Page parser: what is appended\<close>

lemma cells_loop_append: "cells_loop pt pd ptrs recs = recs @ cells_loop pt pd ptrs []"
proof (induction ptrs arbitrary: recs)
  case Nil
  show ?case by simp
next
  case (Cons p ptrs)
  show ?case
    using Cons.IH [of recs] Cons.IH [of "recs @ [r]" for r] Cons.IH [of "[r]" for r]
    by (auto split: sum.splits option.splits)
qed

lemma cells_loop_no_empty: "[] \<notin> set recs \<Longrightarrow> [] \<notin> set (cells_loop pt pd ptrs recs)"
  by (induction ptrs arbitrary: recs) (auto split: sum.splits option.splits)

text \<open>
  C10. Whatever \<open>parse_page\<close> appends to \<open>records\<close> has at least one column: a cell
  whose record decodes to the empty list is not appended.
\<close>

theorem parse_page_never_emits_empty:
  assumes "parse_page data page_number page_size records = Inr out"
  shows "\<exists>new. out = records @ new \<and> [] \<notin> set new"
proof -
  have "\<exists>new. cells_loop pt pd ptrs records = records @ new \<and> [] \<notin> set new" for pt pd ptrs
    using cells_loop_append [of pt pd ptrs records] cells_loop_no_empty [of "[]" pt pd ptrs]
    by auto
  with assms show ?thesis
    by (auto simp: parse_page_def Let_def split: if_splits sum.splits)
qed

text \<open>
  A leaf page with one cell at offset 10: payload length 2, rowid 7, payload
  \<open>01 09\<close>. The header length 1 leaves no serial type, the record is the empty list,
  and nothing is appended.
\<close>

theorem parse_page_never_emits_empty_witness:
  "parse_cell 0x0D [0x0D, 0, 0, 0, 1, 0, 0, 0, 0, 10, 0x02, 0x07, 0x01, 0x09] 10 = Inr (Some [])
   \<and> parse_page [0x0D, 0, 0, 0, 1, 0, 0, 0, 0, 10, 0x02, 0x07, 0x01, 0x09] 0 14 [[PyNone]]
       = Inr [[PyNone]]"
proof -
  have a: "parse_cell 0x0D [0x0D, 0, 0, 0, 1, 0, 0, 0, 0, 10, 0x02, 0x07, 0x01, 0x09] 10
             = Inr (Some [])"
    by (simp add: parse_cell_def read_varint_def upt_9 py_index_def py_slice_def slice_bound_def
          parse_record_def parse_record_try_def header_loop.simps)
  have b: "parse_page [0x0D, 0, 0, 0, 1, 0, 0, 0, 0, 10, 0x02, 0x07, 0x01, 0x09] 0 14 [[PyNone]]
             = Inr [[PyNone]]"
    by (simp add: parse_page_def Let_def py_slice_def slice_bound_def unpack_H_def
          unpack_unsigned_def be_uint_def upt_rec a)
  from parse_page_never_emits_empty [OF b] a b show ?thesis
    by simp
qed

subsection \<open>What a varint read depends on\<close>

lemma be_uint_nonneg: "0 \<le> be_uint bs"
proof -
  have "0 \<le> acc \<Longrightarrow> 0 \<le> foldl (\<lambda>acc b. acc * 256 + uint b) acc bs" for acc :: int
    by (induction bs arbitrary: acc) auto
  then show ?thesis by (simp add: be_uint_def)
qed

lemma varint_loop_nonneg:
  "varint_loop d off idx v = Inr (w, n) \<Longrightarrow> 0 \<le> v \<Longrightarrow> 0 \<le> w"
  by (induction idx arbitrary: v) (auto split: if_splits sum.splits)

lemma read_varint_nonneg: "read_varint d off = Inr (w, n) \<Longrightarrow> 0 \<le> w"
  using varint_loop_nonneg [of d off "[0..<9]" 0 w n] by (simp add: read_varint_def)

lemma varint_loop_count:
  "varint_loop d off idx v = Inr (w, n) \<Longrightarrow> n = 9 \<or> (\<exists>i\<in>set idx. n = int i + 1)"
  by (induction idx arbitrary: v) (auto split: if_splits sum.splits)

lemma read_varint_count: "read_varint d off = Inr (w, n) \<Longrightarrow> 1 \<le> n \<and> n \<le> 9"
  using varint_loop_count [of d off "[0..<9]" 0 w n] by (auto simp: read_varint_def)

lemma varint_loop_where:
  "varint_loop d off idx v = Inr (w, n) \<Longrightarrow>
     (\<exists>i\<in>set idx. n = int i + 1 \<and> off + int i < int (length d))
     \<or> (n = 9 \<and> (\<forall>i\<in>set idx. off + int i < int (length d)))"
  by (induction idx arbitrary: v) (auto split: if_splits sum.splits)

lemma read_varint_in_range:
  "read_varint d off = Inr (w, n) \<Longrightarrow> off + n \<le> int (length d)"
proof -
  assume "read_varint d off = Inr (w, n)"
  then have "(\<exists>i\<in>set [0..<9]. n = int i + 1 \<and> off + int i < int (length d))
     \<or> (n = 9 \<and> (\<forall>i\<in>set [0..<9]. off + int i < int (length d)))"
    using varint_loop_where [of d off "[0..<9]" 0 w n] by (simp add: read_varint_def)
  then show ?thesis
  proof
    assume "\<exists>i\<in>set [0..<9]. n = int i + 1 \<and> off + int i < int (length d)"
    then show ?thesis by auto
  next
    assume a: "n = 9 \<and> (\<forall>i\<in>set [0..<9]. off + int i < int (length d))"
    then have "off + int 8 < int (length d)" by (simp del: of_nat_numeral)
    with a show ?thesis by simp
  qed
qed

lemma varint_loop_same_ok:
  assumes "varint_loop d off idx v = Inr (w, n)"
    and "length d' = length d" and "0 \<le> off"
    and "\<forall>i\<in>set idx. int i < n \<longrightarrow> d' ! nat (off + int i) = d ! nat (off + int i)"
    and "sorted idx" and "\<forall>i\<in>set idx. i < 9"
  shows "varint_loop d' off idx v = Inr (w, n)"
  using assms
proof (induction idx arbitrary: v)
  case Nil
  then show ?case by simp
next
  case (Cons i idx)
  from varint_loop_count [OF Cons.prems(1)] Cons.prems(5,6) have "int i < n"
    by auto
  with Cons.prems(4) have same: "d' ! nat (off + int i) = d ! nat (off + int i)"
    by simp
  from Cons.prems(1) have inr: "off + int i < int (length d)"
    by (auto split: if_splits)
  with Cons.prems(2,3) same have idx: "py_index d' (off + int i) = py_index d (off + int i)"
    by (simp add: py_index_def)
  show ?case
  proof (cases "d ! nat (off + int i) < 0x80")
    case True
    with Cons.prems(1,2,3) inr idx show ?thesis
      by (simp add: py_index_def)
  next
    case False
    with Cons.prems(1,3) inr
    have rest: "varint_loop d off idx (push_bit 7 v OR uint (d ! nat (off + int i) AND 0x7F))
                  = Inr (w, n)"
      by (simp add: py_index_def)
    from Cons.IH [OF rest Cons.prems(2,3)] Cons.prems(4,5,6)
    have "varint_loop d' off idx (push_bit 7 v OR uint (d ! nat (off + int i) AND 0x7F))
             = Inr (w, n)"
      by simp
    with False Cons.prems(2,3) inr same show ?thesis
      by (simp add: py_index_def)
  qed
qed

lemma varint_loop_same_fail:
  assumes "varint_loop d off idx v = Inl e"
    and "length d' = length d" and "0 \<le> off"
    and "\<forall>i\<in>set idx. off + int i < int (length d)
            \<longrightarrow> d' ! nat (off + int i) = d ! nat (off + int i)"
  shows "varint_loop d' off idx v = Inl e"
  using assms
proof (induction idx arbitrary: v)
  case Nil
  then show ?case by simp
next
  case (Cons i idx)
  show ?case
  proof (cases "off + int i < int (length d)")
    case False
    with Cons.prems show ?thesis by simp
  next
    case True
    with Cons.prems(4) have same: "d' ! nat (off + int i) = d ! nat (off + int i)"
      by simp
    show ?thesis
    proof (cases "d ! nat (off + int i) < 0x80")
      case b: True
      with Cons.prems(1,3) True show ?thesis by (simp add: py_index_def)
    next
      case b: False
      with Cons.prems(1,3) True
      have rest: "varint_loop d off idx (push_bit 7 v OR uint (d ! nat (off + int i) AND 0x7F))
                  = Inl e"
        by (simp add: py_index_def)
      from Cons.IH [OF rest Cons.prems(2,3)] Cons.prems(4)
      have "varint_loop d' off idx (push_bit 7 v OR uint (d ! nat (off + int i) AND 0x7F)) = Inl e"
        by simp
      with b Cons.prems(2,3) True same show ?thesis
        by (simp add: py_index_def)
    qed
  qed
qed

lemma read_varint_same:
  assumes "length d' = length d" and "0 \<le> off"
    and "\<forall>k. nat off \<le> k \<and> int k < bound \<and> k < length d \<longrightarrow> d' ! k = d ! k"
    and "case read_varint d off of Inl e \<Rightarrow> int (length d) \<le> bound | Inr (w, n) \<Rightarrow> off + n \<le> bound"
  shows "read_varint d' off = read_varint d off"
proof (cases "read_varint d off")
  case (Inl e)
  with assms(4) have "int (length d) \<le> bound" by simp
  have "\<forall>i\<in>set [0..<9]. off + int i < int (length d)
            \<longrightarrow> d' ! nat (off + int i) = d ! nat (off + int i)"
  proof (intro ballI impI)
    fix i assume "off + int i < int (length d)"
    with \<open>int (length d) \<le> bound\<close> assms(2)
    have "nat off \<le> nat (off + int i)" "int (nat (off + int i)) < bound"
      "nat (off + int i) < length d"
      by linarith+
    with assms(3) show "d' ! nat (off + int i) = d ! nat (off + int i)"
      by blast
  qed
  from varint_loop_same_fail [OF _ assms(1,2) this] Inl show ?thesis
    by (simp add: read_varint_def)
next
  case (Inr r)
  obtain w n where r: "r = (w, n)" by (cases r)
  with Inr assms(4) have b: "off + n \<le> bound" by simp
  from Inr r have "off + n \<le> int (length d)" by (simp add: read_varint_in_range)
  have "\<forall>i\<in>set [0..<9]. int i < n
           \<longrightarrow> d' ! nat (off + int i) = d ! nat (off + int i)"
  proof (intro ballI impI)
    fix i assume "int i < n"
    with b \<open>off + n \<le> int (length d)\<close> assms(2)
    have "nat off \<le> nat (off + int i)" "int (nat (off + int i)) < bound"
      "nat (off + int i) < length d"
      by linarith+
    with assms(3) show "d' ! nat (off + int i) = d ! nat (off + int i)"
      by blast
  qed
  from varint_loop_same_ok [OF _ assms(1,2) this] Inr r show ?thesis
    by (simp add: read_varint_def)
qed

subsection \<open>Record decoder: what is rejected\<close>









subsection \<open>Slices and cell pointers\<close>

lemma take_drop_same:
  assumes "length xs = length ys"
    and "\<forall>k. a \<le> k \<and> k < a + l \<and> k < length xs \<longrightarrow> xs ! k = ys ! k"
  shows "take l (drop a xs) = take l (drop a ys)"
proof (rule nth_equalityI)
  show "length (take l (drop a xs)) = length (take l (drop a ys))"
    using assms(1) by simp
next
  fix i assume "i < length (take l (drop a xs))"
  then have "i < l" "a + i < length xs" by auto
  with assms show "take l (drop a xs) ! i = take l (drop a ys) ! i"
    by simp
qed

lemma py_slice_same:
  assumes "length xs = length ys" and "0 \<le> a" and "0 \<le> l"
    and "\<forall>k. nat a \<le> k \<and> k < nat a + nat l \<and> k < length xs \<longrightarrow> xs ! k = ys ! k"
  shows "py_slice xs a (a + l) = py_slice ys a (a + l)"
  using take_drop_same [OF assms(1,4)] by (simp only: py_slice_take_drop [OF assms(2,3)])

lemma pointer_loop_same:
  assumes "length pd' = length pd" and "0 \<le> hs"
    and "\<forall>k. int k < hs + 2 * int m \<and> k < length pd \<longrightarrow> pd' ! k = pd ! k"
    and "\<forall>i\<in>set idx. i < m"
  shows "pointer_loop pd' hs idx acc = pointer_loop pd hs idx acc"
  using assms(4)
proof (induction idx arbitrary: acc)
  case Nil
  show ?case by simp
next
  case (Cons i idx)
  from Cons.prems have i: "i < m" and rest: "\<forall>i\<in>set idx. i < m" by simp_all
  have po: "0 \<le> hs + int i * 2" using assms(2) by simp
  have "py_slice pd' (hs + int i * 2) (hs + int i * 2 + 2)
           = py_slice pd (hs + int i * 2) (hs + int i * 2 + 2)"
  proof (rule py_slice_same [OF assms(1) po], simp, intro allI impI)
    fix k assume "nat (hs + int i * 2) \<le> k \<and> k < nat (hs + int i * 2) + nat 2 \<and> k < length pd'"
    with i assms(1,2) have "int k < hs + 2 * int m" "k < length pd" by linarith+
    with assms(3) show "pd' ! k = pd ! k" by blast
  qed
  with Cons.IH [OF rest] assms(1) show ?case
    by (auto simp: Let_def split: sum.splits)
qed

lemma pointer_loop_ok:
  "0 \<le> hs \<Longrightarrow> \<exists>ptrs. pointer_loop pd hs idx acc = Inr (acc @ ptrs) \<and> (\<forall>p\<in>set ptrs. 0 \<le> p)"
proof (induction idx arbitrary: acc)
  case Nil
  then show ?case by simp
next
  case (Cons i idx)
  show ?case
  proof (cases "hs + int i * 2 + 2 > int (length pd)")
    case True
    with Cons show ?thesis by (simp add: Let_def)
  next
    case False
    with Cons.prems have "length (py_slice pd (hs + int i * 2) (hs + int i * 2 + 2)) = 2"
      using length_py_slice [of "hs + int i * 2" 2 pd] by simp
    then have u: "unpack_H (py_slice pd (hs + int i * 2) (hs + int i * 2 + 2))
                 = Inr (be_uint (py_slice pd (hs + int i * 2) (hs + int i * 2 + 2)))"
      by (simp add: unpack_H_def unpack_unsigned_def)
    from Cons.IH [OF Cons.prems, of "acc @ [be_uint (py_slice pd (hs + int i * 2) (hs + int i * 2 + 2))]"]
    obtain ptrs where "pointer_loop pd hs idx (acc @ [be_uint (py_slice pd (hs + int i * 2) (hs + int i * 2 + 2))])
         = Inr ((acc @ [be_uint (py_slice pd (hs + int i * 2) (hs + int i * 2 + 2))]) @ ptrs)"
        and "\<forall>p\<in>set ptrs. 0 \<le> p" by blast
    with False u show ?thesis
      by (simp add: Let_def be_uint_nonneg)
  qed
qed

lemma page_cell_pointers_props:
  assumes "page_cell_pointers pd \<noteq> []"
  shows "pd \<noteq> [] \<and> pd ! 0 \<in> set [0x0D, 0x05]
     \<and> (\<exists>nc. unpack_H (py_slice pd 3 5) = Inr nc
           \<and> pointer_loop pd (if pd ! 0 = 0x0D then 8 else 12) [0..<nat nc] [] = Inr (page_cell_pointers pd)
           \<and> pointer_array_end pd = (if pd ! 0 = 0x0D then 8 else 12) + 2 * nc \<and> 0 \<le> nc)"
proof -
  from assms have a: "pd \<noteq> []" "pd ! 0 \<in> set [0x0D, 0x05]"
    by (auto simp: page_cell_pointers_def split: if_splits)
  with assms obtain nc where nc: "unpack_H (py_slice pd 3 5) = Inr nc"
    by (auto simp: page_cell_pointers_def split: if_splits sum.splits)
  then have "0 \<le> nc"
    by (auto simp: unpack_H_def unpack_unsigned_def be_uint_nonneg split: if_splits)
  moreover from assms a nc
  have "pointer_loop pd (if pd ! 0 = 0x0D then 8 else 12) [0..<nat nc] [] = Inr (page_cell_pointers pd)"
    by (auto simp: page_cell_pointers_def split: if_splits sum.splits)
  moreover from a nc have "pointer_array_end pd = (if pd ! 0 = 0x0D then 8 else 12) + 2 * nc"
    by (simp add: pointer_array_end_def)
  ultimately show ?thesis using a nc by blast
qed

text \<open>
  \<open>parse_page\<close> raises on exactly the pages of one to four bytes that start with a
  table page type, and only \<open>struct.error\<close>.
\<close>

lemma parse_page_raises_iff:
  "parse_page data page_number page_size records = Inl e \<longleftrightarrow>
     (let page_data = py_slice data (page_number * page_size) (page_number * page_size + page_size)
      in page_data \<noteq> [] \<and> page_data ! 0 \<in> set [0x0D, 0x05] \<and> length page_data < 5)
     \<and> e = StructError"
proof -
  define pd where "pd = py_slice data (page_number * page_size) (page_number * page_size + page_size)"
  have len: "length (py_slice pd 3 5) = min 2 (length pd - 3)"
    using length_py_slice [of 3 2 pd] by simp
  have ptr: "\<exists>ptrs. pointer_loop pd hs [0..<nat nc] [] = Inr ptrs" if "0 \<le> hs" for hs nc
    using pointer_loop_ok [OF that, of pd "[0..<nat nc]" "[]"] by auto
  show ?thesis
  proof (cases "pd = [] \<or> pd ! 0 \<notin> set [0x0D, 0x05]")
    case True
    then show ?thesis
      by (auto simp: parse_page_def Let_def pd_def [symmetric])
  next
    case False
    show ?thesis
    proof (cases "length pd < 5")
      case True
      with len have "unpack_H (py_slice pd 3 5) = Inl StructError"
        by (simp add: unpack_H_def unpack_unsigned_def)
      with False True show ?thesis
        by (auto simp: parse_page_def Let_def pd_def [symmetric])
    next
      case long: False
      with len obtain nc where nc: "unpack_H (py_slice pd 3 5) = Inr nc"
        by (simp add: unpack_H_def unpack_unsigned_def)
      from ptr [of 8 nc] ptr [of 12 nc] obtain p8 p12 where
        "pointer_loop pd 8 [0..<nat nc] [] = Inr p8" "pointer_loop pd 12 [0..<nat nc] [] = Inr p12"
        by auto
      with False long nc show ?thesis
        by (auto simp: parse_page_def Let_def pd_def [symmetric])
    qed
  qed
qed

subsection \<open>Cells of a page\<close>

lemma cells_loop_concat:
  "cells_loop pt pd ptrs recs = recs @ concat (map (cell_records pt pd) ptrs)"
proof (induction ptrs arbitrary: recs)
  case Nil
  show ?case by simp
next
  case (Cons p ptrs)
  show ?case
    using Cons.IH [of recs] Cons.IH [of "recs @ [r]" for r]
    by (auto simp: cell_records_def split: sum.splits option.splits)
qed

lemma cell_records_same:
  "parse_cell pt pd' p = parse_cell pt pd p \<Longrightarrow> cell_records pt pd' p = cell_records pt pd p"
  by (simp add: cell_records_def split: sum.splits option.splits)

lemma cell_records_length: "length (cell_records pt pd p) \<le> 1"
  by (simp add: cell_records_def split: sum.splits option.splits)

lemma interior_cell:
  assumes "0 \<le> p"
  shows "cell_records 0x05 pd p =
          (case interior_cell_spec pd p of None \<Rightarrow> [] | Some r \<Rightarrow> if r = [] then [] else [r])"
proof -
  have "parse_cell 0x05 pd p = Inr (interior_cell_spec pd p) \<or>
        ((\<exists>e. parse_cell 0x05 pd p = Inl e) \<and> interior_cell_spec pd p = None)"
  proof (cases "read_varint pd p")
    case (Inl e) then show ?thesis by (simp add: parse_cell_def interior_cell_spec_def)
  next
    case (Inr r1)
    obtain pl n1 where r1: "r1 = (pl, n1)" by (cases r1)
    from Inr r1 have pl: "0 \<le> pl" and n1: "1 \<le> n1" 
      using read_varint_nonneg read_varint_count by blast+
    show ?thesis
    proof (cases "read_varint pd (p + n1)")
      case (Inl e) with Inr r1 show ?thesis by (simp add: parse_cell_def interior_cell_spec_def)
    next
      case r2: (Inr r2)
      obtain lc n2 where r2': "r2 = (lc, n2)" by (cases r2)
      from r2 r2' have n2: "1 \<le> n2" using read_varint_count by blast
      show ?thesis
      proof (cases "read_varint pd (p + n1 + n2)")
        case (Inl e) with Inr r1 r2 r2' show ?thesis by (simp add: parse_cell_def interior_cell_spec_def)
      next
        case r3: (Inr r3)
        obtain rid n3 where r3': "r3 = (rid, n3)" by (cases r3)
        from r3 r3' have n3: "1 \<le> n3" using read_varint_count by blast
        from assms n1 n2 n3 have "0 \<le> p + n1 + n2 + n3" by simp
        from py_slice_take_drop [OF this pl, of pd]
        show ?thesis using Inr r1 r2 r2' r3 r3'
          by (simp add: parse_cell_def interior_cell_spec_def)
      qed
    qed
  qed
  then show ?thesis by (auto simp: cell_records_def split: option.splits)
qed

text \<open>
  C8. On a table-interior page (first byte \<open>0x05\<close>, at least the five bytes that hold
  the cell count) \<open>parse_page\<close> appends, for each cell pointer in turn, the tuple
  the specification's reading of an interior cell gives, when that is a tuple of at
  least one column.
\<close>

theorem interior_page_cells:
  assumes "page_data = py_slice data (page_number * page_size) (page_number * page_size + page_size)"
    and "page_data \<noteq> []" and "page_data ! 0 = 0x05" and "5 \<le> length page_data"
  shows "parse_page data page_number page_size records =
           Inr (records @ concat (map (\<lambda>p. case interior_cell_spec page_data p of
                                             None \<Rightarrow> [] | Some r \<Rightarrow> if r = [] then [] else [r])
                                    (page_cell_pointers page_data)))
         \<and> (\<forall>p\<in>set (page_cell_pointers page_data). 0 \<le> p)"
proof -
  from assms(4) have "length (py_slice page_data 3 5) = 2"
    using length_py_slice [of 3 2 page_data] by simp
  then obtain nc where nc: "unpack_H (py_slice page_data 3 5) = Inr nc"
    by (simp add: unpack_H_def unpack_unsigned_def)
  obtain ptrs where ptrs: "pointer_loop page_data 12 [0..<nat nc] [] = Inr ptrs"
    and nonneg: "\<forall>p\<in>set ptrs. 0 \<le> p"
    using pointer_loop_ok [of 12 page_data "[0..<nat nc]" "[]"] by auto
  from nc ptrs assms have pcp: "page_cell_pointers page_data = ptrs"
    by (simp add: page_cell_pointers_def)
  have "parse_page data page_number page_size records = Inr (cells_loop 0x05 page_data ptrs records)"
    using assms nc ptrs by (simp add: parse_page_def Let_def)
  also have "cells_loop 0x05 page_data ptrs records
      = records @ concat (map (cell_records 0x05 page_data) ptrs)"
    by (rule cells_loop_concat)
  also have "map (cell_records 0x05 page_data) ptrs
     = map (\<lambda>p. case interior_cell_spec page_data p of
                                             None \<Rightarrow> [] | Some r \<Rightarrow> if r = [] then [] else [r]) ptrs"
    using nonneg by (intro map_cong refl interior_cell) simp
  finally show ?thesis using pcp nonneg by simp
qed

text \<open>
  An interior page of 19 bytes with one cell at offset 14: payload length 2, left
  child 0, rowid 7, payload \<open>02 09\<close>, the integer 1.
\<close>

theorem interior_page_cells_witness:
  "parse_page [0x05, 0, 0, 0, 1, 0, 0, 0, 0, 0, 0, 0, 0, 14, 0x02, 0x00, 0x07, 0x02, 0x09] 0 19 []
     = Inr [[PyInt 1]]"
proof -
  let ?page = "[0x05, 0, 0, 0, 1, 0, 0, 0, 0, 0, 0, 0, 0, 14, 0x02, 0x00, 0x07, 0x02, 0x09] :: byte list"
  have pd: "?page = py_slice ?page (0 * 19) (0 * 19 + 19)"
    by (simp add: py_slice_def slice_bound_def)
  have ptrs: "page_cell_pointers ?page = [14]"
    by (simp add: page_cell_pointers_def py_slice_def slice_bound_def unpack_H_def
          unpack_unsigned_def be_uint_def upt_rec)
  have cell: "interior_cell_spec ?page 14 = Some [PyInt 1]"
    by (simp add: interior_cell_spec_def read_varint_def upt_9 py_index_def parse_record_def
          parse_record_try_def header_loop.simps parse_serial_type_def)
  from interior_page_cells [OF pd, of "[]"] ptrs cell show ?thesis
    by simp
qed

subsection \<open>Corruption confined to one cell\<close>

lemma parse_cell_same:
  assumes len: "length pd' = length pd" and p: "0 \<le> p"
    and agree: "\<forall>k. nat p \<le> k \<and> int k < cell_end pt pd p \<and> k < length pd \<longrightarrow> pd' ! k = pd ! k"
  shows "parse_cell pt pd' p = parse_cell pt pd p"
proof -
  let ?E = "cell_end pt pd p"
  have rv: "read_varint pd' off = read_varint pd off"
    if "p \<le> off"
      and "case read_varint pd off of Inl e \<Rightarrow> int (length pd) \<le> ?E | Inr (w, n) \<Rightarrow> off + n \<le> ?E"
    for off
  proof (rule read_varint_same [OF len _ _ that(2)])
    from p that(1) show "0 \<le> off" by simp
    from p that(1) agree
    show "\<forall>k. nat off \<le> k \<and> int k < ?E \<and> k < length pd \<longrightarrow> pd' ! k = pd ! k"
      by (metis nat_mono order_trans)
  qed
  show ?thesis
  proof (cases "read_varint pd p")
    case (Inl e)
    then have "?E = int (length pd)" by (simp add: cell_end_def)
    with rv [of p] Inl have "read_varint pd' p = Inl e" by simp
    with Inl show ?thesis by (simp add: parse_cell_def)
  next
    case (Inr r1)
    obtain pl n1 where r1: "read_varint pd p = Inr (pl, n1)"
      using Inr by (cases r1) simp
    from r1 have pl: "0 \<le> pl" and n1: "1 \<le> n1" and in1: "p + n1 \<le> int (length pd)"
      using read_varint_nonneg read_varint_count read_varint_in_range by blast+
    define step where "step = (if pt = 0x05
                 then (case read_varint pd (p + n1) of
                         Inl e \<Rightarrow> Inl e
                       | Inr (left_child_page, n') \<Rightarrow> Inr (p + n1 + n'))
                 else (Inr (p + n1) :: error + int))"
    define step' where "step' = (if pt = 0x05
                 then (case read_varint pd' (p + n1) of
                         Inl e \<Rightarrow> Inl e
                       | Inr (left_child_page, n') \<Rightarrow> Inr (p + n1 + n'))
                 else (Inr (p + n1) :: error + int))"
    have E: "?E = (case step of
             Inl e \<Rightarrow> int (length pd)
           | Inr cell_offset \<Rightarrow>
               (case read_varint pd cell_offset of
                  Inl e \<Rightarrow> int (length pd)
                | Inr (rowid, n'') \<Rightarrow>
                    min (int (length pd)) (cell_offset + n'' + pl)))"
      using r1 by (simp add: cell_end_def step_def)
    have pc: "parse_cell pt pd p = (case step of
             Inl e \<Rightarrow> Inl e
           | Inr cell_offset \<Rightarrow>
               (case read_varint pd cell_offset of
                  Inl e \<Rightarrow> Inl e
                | Inr (rowid, n'') \<Rightarrow>
                    Inr (parse_record
                           (py_slice pd (cell_offset + n'') (cell_offset + n'' + pl)) 0 pl)))"
      using r1 by (simp add: parse_cell_def step_def)
    have step_ok: "p + n1 \<le> co \<and> co \<le> int (length pd)" if "step = Inr co" for co
    proof (cases "pt = 0x05")
      case False
      with that in1 show ?thesis by (simp add: step_def)
    next
      case True
      with that obtain lc n2 where r2: "read_varint pd (p + n1) = Inr (lc, n2)" and co: "co = p + n1 + n2"
        by (auto simp: step_def split: sum.splits)
      from r2 have "1 \<le> n2" "p + n1 + n2 \<le> int (length pd)"
        using read_varint_count read_varint_in_range by blast+
      with co show ?thesis by simp
    qed
    have E_ge: "co + n3 \<le> ?E" if "step = Inr co" "read_varint pd co = Inr (rid, n3)" for co rid n3
      using that pl read_varint_in_range [OF that(2)] by (simp add: E)
    have E_len: "?E = int (length pd)" if "step = Inl e" for e
      using that by (simp add: E)
    have E_len3: "?E = int (length pd)" if "step = Inr co" "read_varint pd co = Inl e" for co e
      using that by (simp add: E)
    have E_le: "?E \<le> int (length pd)"
      by (simp add: E split: sum.splits)
    \<comment> \<open>first varint\<close>
    have "p + n1 \<le> ?E"
    proof (cases step)
      case (Inl e)
      with E_len in1 show ?thesis by simp
    next
      case (Inr co)
      show ?thesis
      proof (cases "read_varint pd co")
        case (Inl e)
        with E_len3 [OF Inr] in1 show ?thesis by simp
      next
        case r3: (Inr r3)
        obtain rid n3 where "read_varint pd co = Inr (rid, n3)" using r3 by (cases r3) simp
        from E_ge [OF Inr this] step_ok [OF Inr] read_varint_count [OF this] show ?thesis by simp
      qed
    qed
    with rv [of p] r1 have r1': "read_varint pd' p = Inr (pl, n1)" by simp
    \<comment> \<open>second varint, on an interior page\<close>
    have step_eq: "step' = step"
    proof (cases "pt = 0x05")
      case False
      then show ?thesis by (simp add: step_def step'_def)
    next
      case True
      have "case read_varint pd (p + n1) of Inl e \<Rightarrow> int (length pd) \<le> ?E | Inr (w, n) \<Rightarrow> p + n1 + n \<le> ?E"
      proof (cases "read_varint pd (p + n1)")
        case (Inl e)
        with True have "step = Inl e" by (simp add: step_def)
        with E_len Inl show ?thesis by simp
      next
        case (Inr r2)
        obtain lc n2 where r2: "read_varint pd (p + n1) = Inr (lc, n2)" using Inr by (cases r2) simp
        with True have st: "step = Inr (p + n1 + n2)" by (simp add: step_def)
        have "p + n1 + n2 \<le> ?E"
        proof (cases "read_varint pd (p + n1 + n2)")
          case (Inl e)
          with E_len3 [OF st] step_ok [OF st] show ?thesis by simp
        next
          case r3: (Inr r3)
          obtain rid n3 where "read_varint pd (p + n1 + n2) = Inr (rid, n3)" using r3 by (cases r3) simp
          from E_ge [OF st this] read_varint_count [OF this] show ?thesis by simp
        qed
        with r2 show ?thesis by simp
      qed
      with rv [of "p + n1"] n1 have "read_varint pd' (p + n1) = read_varint pd (p + n1)" by simp
      then show ?thesis by (simp add: step_def step'_def)
    qed
    have pc': "parse_cell pt pd' p = (case step of
             Inl e \<Rightarrow> Inl e
           | Inr cell_offset \<Rightarrow>
               (case read_varint pd' cell_offset of
                  Inl e \<Rightarrow> Inl e
                | Inr (rowid, n'') \<Rightarrow>
                    Inr (parse_record
                           (py_slice pd' (cell_offset + n'') (cell_offset + n'' + pl)) 0 pl)))"
      using r1' step_eq by (simp add: parse_cell_def step'_def)
    show ?thesis
    proof (cases step)
      case (Inl e)
      with pc pc' show ?thesis by simp
    next
      case (Inr co)
      have "case read_varint pd co of Inl e \<Rightarrow> int (length pd) \<le> ?E | Inr (w, n) \<Rightarrow> co + n \<le> ?E"
        using E_len3 [OF Inr] E_ge [OF Inr] by (auto split: sum.splits)
      with rv [of co] step_ok [OF Inr] n1 have r3eq: "read_varint pd' co = read_varint pd co" by simp
      show ?thesis
      proof (cases "read_varint pd co")
        case (Inl e)
        with r3eq pc pc' Inr show ?thesis by simp
      next
        case r3: (Inr r3)
        obtain rid n3 where r3': "read_varint pd co = Inr (rid, n3)" using r3 by (cases r3) simp
        from read_varint_count [OF r3'] step_ok [OF Inr] p n1 have nn: "0 \<le> co + n3" "p \<le> co + n3" by simp_all
        have Eeq: "?E = min (int (length pd)) (co + n3 + pl)"
          using Inr r3' by (simp add: E)
        have "take (nat pl) (drop (nat (co + n3)) pd') = take (nat pl) (drop (nat (co + n3)) pd)"
        proof (rule take_drop_same [OF len], intro allI impI)
          fix k assume k: "nat (co + n3) \<le> k \<and> k < nat (co + n3) + nat pl \<and> k < length pd'"
          with nn pl len have "nat p \<le> k" "int k < ?E" "k < length pd"
            unfolding Eeq by linarith+
          with agree show "pd' ! k = pd ! k" by blast
        qed
        then have "py_slice pd' (co + n3) (co + n3 + pl) = py_slice pd (co + n3) (co + n3 + pl)"
          by (simp only: py_slice_take_drop [OF nn(1) pl])
        with r3eq r3' pc pc' Inr show ?thesis by simp
      qed
    qed
  qed
qed

text \<open>
  C6. Two images whose copies of a page have the same length and differ only at
  offsets within \<open>lo..<hi\<close>, a range behind the page header and the cell pointer
  array. If every cell but the \<open>j\<close>-th has its bytes outside that range, both runs
  append the same tuples for all the other cells, in the same order; they differ at most in
  the one tuple of cell \<open>j\<close>.
\<close>

theorem one_cell_corruption:
  assumes pd: "page_data = py_slice data (page_number * page_size) (page_number * page_size + page_size)"
    and pd': "page_data' = py_slice data' (page_number * page_size) (page_number * page_size + page_size)"
    and len: "length page_data' = length page_data"
    and same: "\<forall>k<length page_data. k < lo \<or> hi \<le> k \<longrightarrow> page_data' ! k = page_data ! k"
    and hdr: "pointer_array_end page_data \<le> int lo"
    and ptrs: "ptrs = page_cell_pointers page_data"
    and pt: "page_type = page_data ! 0"
    and j: "j < length ptrs"
    and others: "\<forall>i<length ptrs. i \<noteq> j \<longrightarrow>
                   cell_end page_type page_data (ptrs ! i) \<le> int lo \<or> int hi \<le> ptrs ! i"
  shows "parse_page data page_number page_size records =
           Inr (records
                @ concat (map (cell_records page_type page_data) (take j ptrs))
                @ cell_records page_type page_data (ptrs ! j)
                @ concat (map (cell_records page_type page_data) (drop (Suc j) ptrs)))
       \<and> parse_page data' page_number page_size records =
           Inr (records
                @ concat (map (cell_records page_type page_data) (take j ptrs))
                @ cell_records page_type page_data' (ptrs ! j)
                @ concat (map (cell_records page_type page_data) (drop (Suc j) ptrs)))
       \<and> length (cell_records page_type page_data (ptrs ! j)) \<le> 1
       \<and> length (cell_records page_type page_data' (ptrs ! j)) \<le> 1"
proof -
  let ?f = "cell_records page_type page_data"
  let ?f' = "cell_records page_type page_data'"
  let ?hs = "if page_type = 0x0D then 8 else 12 :: int"
  from j ptrs have ne: "page_cell_pointers page_data \<noteq> []" by auto
  from page_cell_pointers_props [OF ne] pt obtain nc where
    nonempty: "page_data \<noteq> []" and ty: "page_type \<in> set [0x0D, 0x05]"
    and nc: "unpack_H (py_slice page_data 3 5) = Inr nc"
    and pl: "pointer_loop page_data ?hs [0..<nat nc] [] = Inr ptrs"
    and pae: "pointer_array_end page_data = ?hs + 2 * nc" and nc0: "0 \<le> nc"
    using ptrs by auto
  from pae hdr nc0 have lo8: "8 \<le> lo" by (auto split: if_splits)
  have low: "page_data' ! k = page_data ! k" if "int k < ?hs + 2 * nc" "k < length page_data" for k
    using that same hdr pae by auto
  from nonempty len have nonempty': "page_data' \<noteq> []" by auto
  from low [of 0] nonempty nc0 have pt': "page_data' ! 0 = page_type"
    by (auto simp: pt split: if_splits)
  have "py_slice page_data' 3 (3 + 2) = py_slice page_data 3 (3 + 2)"
  proof (rule py_slice_same [OF len], simp, simp, intro allI impI)
    fix k assume "nat 3 \<le> k \<and> k < nat 3 + nat 2 \<and> k < length page_data'"
    with low [of k] len nc0 show "page_data' ! k = page_data ! k" by (auto split: if_splits)
  qed
  then have "py_slice page_data' 3 5 = py_slice page_data 3 5"
    by simp
  with nc have nc': "unpack_H (py_slice page_data' 3 5) = Inr nc" by simp
  have "pointer_loop page_data' ?hs [0..<nat nc] [] = pointer_loop page_data ?hs [0..<nat nc] []"
  proof (rule pointer_loop_same [OF len, where m = "nat nc"])
    show "0 \<le> ?hs" by simp
    show "\<forall>k. int k < ?hs + 2 * int (nat nc) \<and> k < length page_data \<longrightarrow> page_data' ! k = page_data ! k"
      using low nc0 by simp
    show "\<forall>i\<in>set [0..<nat nc]. i < nat nc" by simp
  qed
  with pl have pl': "pointer_loop page_data' ?hs [0..<nat nc] [] = Inr ptrs" by simp
  from pointer_loop_ok [of ?hs page_data "[0..<nat nc]" "[]"] pl
  have nonneg: "\<forall>p\<in>set ptrs. 0 \<le> p" by auto
  have run: "parse_page data page_number page_size records = Inr (records @ concat (map ?f ptrs))"
    using pd [symmetric] nonempty ty nc pl pt cells_loop_concat [of page_type page_data ptrs records]
    by (auto simp: parse_page_def Let_def)
  have run': "parse_page data' page_number page_size records = Inr (records @ concat (map ?f' ptrs))"
    using pd' [symmetric] nonempty' ty nc' pl' pt' cells_loop_concat [of page_type page_data' ptrs records]
    by (auto simp: parse_page_def Let_def)
  have other: "?f' (ptrs ! i) = ?f (ptrs ! i)" if "i < length ptrs" "i \<noteq> j" for i
  proof (rule cell_records_same, rule parse_cell_same [OF len])
    from that nonneg show "0 \<le> ptrs ! i" by simp
    from others that have d: "cell_end page_type page_data (ptrs ! i) \<le> int lo \<or> int hi \<le> ptrs ! i"
      by simp
    show "\<forall>k. nat (ptrs ! i) \<le> k \<and> int k < cell_end page_type page_data (ptrs ! i) \<and> k < length page_data
           \<longrightarrow> page_data' ! k = page_data ! k"
    proof (intro allI impI)
      fix k assume k: "nat (ptrs ! i) \<le> k \<and> int k < cell_end page_type page_data (ptrs ! i) \<and> k < length page_data"
      with d have "k < lo \<or> hi \<le> k" by linarith
      with k same show "page_data' ! k = page_data ! k" by blast
    qed
  qed
  have split: "ptrs = take j ptrs @ [ptrs ! j] @ drop (Suc j) ptrs"
    using j by (simp add: Cons_nth_drop_Suc)
  have before: "map ?f' (take j ptrs) = map ?f (take j ptrs)"
  proof (rule nth_equalityI)
    show "length (map ?f' (take j ptrs)) = length (map ?f (take j ptrs))" by simp
    fix i assume "i < length (map ?f' (take j ptrs))"
    with j other [of i] show "map ?f' (take j ptrs) ! i = map ?f (take j ptrs) ! i" by simp
  qed
  have after: "map ?f' (drop (Suc j) ptrs) = map ?f (drop (Suc j) ptrs)"
  proof (rule nth_equalityI)
    show "length (map ?f' (drop (Suc j) ptrs)) = length (map ?f (drop (Suc j) ptrs))" by simp
    fix i assume "i < length (map ?f' (drop (Suc j) ptrs))"
    with j other [of "Suc j + i"] show "map ?f' (drop (Suc j) ptrs) ! i = map ?f (drop (Suc j) ptrs) ! i" by simp
  qed
  have c: "concat (map g ptrs) = concat (map g (take j ptrs)) @ g (ptrs ! j) @ concat (map g (drop (Suc j) ptrs))"
    for g :: "int \<Rightarrow> pyval list list"
    by (subst split) (simp del: append_take_drop_id)
  from run c [of ?f] have 1: "parse_page data page_number page_size records =
           Inr (records @ concat (map ?f (take j ptrs)) @ ?f (ptrs ! j) @ concat (map ?f (drop (Suc j) ptrs)))"
    by simp
  from run' c [of ?f'] before after have 2: "parse_page data' page_number page_size records =
           Inr (records @ concat (map ?f (take j ptrs)) @ ?f' (ptrs ! j) @ concat (map ?f (drop (Suc j) ptrs)))"
    by simp
  from 1 2 cell_records_length show ?thesis by blast
qed

text \<open>
  A leaf page of 20 bytes with two cells, at 12 (the integer 1) and at 16 (the
  integer 0); byte 14, in the first cell, is overwritten with \<open>0xFF\<close>. The first
  cell is lost, the second is recovered as before.
\<close>

theorem one_cell_corruption_witness:
  "parse_page [0x0D, 0, 0, 0, 2, 0, 0, 0, 0, 12, 0, 16, 2, 1, 2, 9, 2, 2, 2, 8] 0 20 []
     = Inr [[PyInt 1], [PyInt 0]]
   \<and> parse_page [0x0D, 0, 0, 0, 2, 0, 0, 0, 0, 12, 0, 16, 2, 1, 0xFF, 9, 2, 2, 2, 8] 0 20 []
     = Inr [[PyInt 0]]"
proof -
  let ?page = "[0x0D, 0, 0, 0, 2, 0, 0, 0, 0, 12, 0, 16, 2, 1, 2, 9, 2, 2, 2, 8] :: byte list"
  let ?page' = "[0x0D, 0, 0, 0, 2, 0, 0, 0, 0, 12, 0, 16, 2, 1, 0xFF, 9, 2, 2, 2, 8] :: byte list"
  have pd: "?page = py_slice ?page (0 * 20) (0 * 20 + 20)"
    and pd': "?page' = py_slice ?page' (0 * 20) (0 * 20 + 20)"
    by (simp_all add: py_slice_def slice_bound_def)
  have upd: "?page' = ?page[14 := 0xFF]"
    by simp
  have same: "\<forall>k<length ?page. k < 12 \<or> 16 \<le> k \<longrightarrow> ?page' ! k = ?page ! k"
    unfolding upd by (simp del: list_update.simps)
  have hdr: "pointer_array_end ?page \<le> int 12"
    by (simp add: pointer_array_end_def py_slice_def slice_bound_def unpack_H_def
          unpack_unsigned_def be_uint_def)
  have ptrs: "[12, 16] = page_cell_pointers ?page"
    by (simp add: page_cell_pointers_def py_slice_def slice_bound_def unpack_H_def
          unpack_unsigned_def be_uint_def upt_rec)
  have others: "\<forall>i<length [12, 16 :: int]. i \<noteq> 0 \<longrightarrow>
      cell_end 0x0D ?page ([12, 16] ! i) \<le> int 12 \<or> int 16 \<le> [12, 16] ! i"
    by (simp add: less_Suc_eq)
  have cells: "cell_records 0x0D ?page 12 = [[PyInt 1]]" "cell_records 0x0D ?page 16 = [[PyInt 0]]"
    "cell_records 0x0D ?page' 12 = []"
    by (simp_all add: cell_records_def parse_cell_def read_varint_def upt_9 py_index_def
          py_slice_def slice_bound_def parse_record_def parse_record_try_def header_loop.simps
          parse_serial_type_def)
  from one_cell_corruption [OF pd pd' _ same hdr ptrs _ _ others, of "[]"] cells
  show ?thesis
    by simp
qed

subsection \<open>UTF-8: decoding an encoded text\<close>

lemma unat_byte: "n < 256 \<Longrightarrow> unat (byte_of n) = n"
  by (simp add: byte_of_def unat_of_nat)

lemma byte_less: "(a :: byte) < b \<longleftrightarrow> unat a < unat b"
  by (rule word_less_nat_alt)

lemma byte_le: "(a :: byte) \<le> b \<longleftrightarrow> unat a \<le> unat b"
  by (rule word_le_nat_alt)

lemma byte_eq: "(a :: byte) = b \<longleftrightarrow> unat a = unat b"
  by (rule word_unat_eq_iff)

lemma lead_byte:
  assumes "a < k" and "base + k \<le> 256" and "k dvd base"
  shows "unat (byte_of (base + a)) = base + a \<and> (base + a) mod k = a"
proof -
  from assms(1,2) have "unat (byte_of (base + a)) = base + a"
    by (intro unat_byte) simp
  moreover from assms(1,3) have "(base + a) mod k = a"
    by (simp add: mod_add_eq [symmetric] dvd_eq_mod_eq_0)
  ultimately show ?thesis by simp
qed

lemma cont_byte:
  assumes "m < 64"
  shows "is_cont (byte_of (0x80 + m))" and "cont_bits (byte_of (0x80 + m)) = m"
    and "unat (byte_of (0x80 + m)) = 0x80 + m"
proof -
  from lead_byte [of m 64 128] assms
  have u: "unat (byte_of (0x80 + m)) = 0x80 + m" and md: "(0x80 + m) mod 64 = m"
    by simp_all
  from u show "unat (byte_of (0x80 + m)) = 0x80 + m" .
  from u assms show "is_cont (byte_of (0x80 + m))"
    by (simp add: is_cont_def byte_less byte_le)
  from u md show "cont_bits (byte_of (0x80 + m)) = m"
    by (simp add: cont_bits_def)
qed

lemma split_64: "(c::nat) = c div 64 * 64 + c mod 64"
  by simp

lemma split_4096: "(c::nat) = c div 4096 * 4096 + c div 64 mod 64 * 64 + c mod 64"
proof -
  define q p d e where "q = c div 64" and "p = c div 4096" and "d = c div 64 mod 64"
    and "e = c mod 64"
  have "c div 64 div 64 = c div 4096"
    by (simp add: div_mult2_eq [symmetric])
  then have "q = p * 64 + d"
    using split_64 [of "c div 64"] by (simp add: q_def p_def d_def)
  moreover have "c = q * 64 + e"
    using split_64 [of c] by (simp add: q_def e_def)
  ultimately have "c = p * 4096 + d * 64 + e"
    by simp
  then show ?thesis
    by (simp only: p_def d_def e_def)
qed

lemma split_262144:
  "(c::nat) = c div 262144 * 262144 + c div 4096 mod 64 * 4096 + c div 64 mod 64 * 64 + c mod 64"
proof -
  define p a b d e where "p = c div 4096" and "a = c div 262144" and "b = c div 4096 mod 64"
    and "d = c div 64 mod 64" and "e = c mod 64"
  have "c div 4096 div 64 = c div 262144"
    by (simp add: div_mult2_eq [symmetric])
  then have "p = a * 64 + b"
    using split_64 [of "c div 4096"] by (simp add: p_def a_def b_def)
  moreover have "c = p * 4096 + d * 64 + e"
    using split_4096 [of c] by (simp only: p_def d_def e_def)
  ultimately have "c = a * 262144 + b * 4096 + d * 64 + e"
    by simp
  then show ?thesis
    by (simp only: a_def b_def d_def e_def)
qed

lemma decode1:
  assumes "c < 0x80"
  shows "utf8_decode (utf8_encode_cp c @ rest) = c # utf8_decode rest"
  using assms by (simp add: utf8_encode_cp_def byte_less unat_byte)

lemma decode2:
  assumes "0x80 \<le> c" "c < 0x800"
  shows "utf8_decode (utf8_encode_cp c @ rest) = c # utf8_decode rest"
proof -
  define a e where "a = c div 64" and "e = c mod 64"
  have c: "c = a * 64 + e" and e: "e < 64"
    using split_64 [of c] by (simp_all add: a_def e_def)
  with assms have a: "2 \<le> a" "a < 32" by linarith+
  from lead_byte [of a 32 192] a
  have u1: "unat (byte_of (0xC0 + a)) = 0xC0 + a" and m1: "(0xC0 + a) mod 32 = a"
    by simp_all
  have enc: "utf8_encode_cp c = [byte_of (0xC0 + a), byte_of (0x80 + e)]"
    using assms by (simp add: utf8_encode_cp_def a_def e_def)
  show ?thesis
    unfolding enc using a e cont_byte(1,2) [OF e] u1 m1 c
    by (simp add: byte_less)
qed

lemma decode3:
  assumes "0x800 \<le> c" "c < 0x10000" "\<not> (0xD800 \<le> c \<and> c < 0xE000)"
  shows "utf8_decode (utf8_encode_cp c @ rest) = c # utf8_decode rest"
proof -
  define a d e where "a = c div 4096" and "d = c div 64 mod 64" and "e = c mod 64"
  have c: "c = a * 4096 + d * 64 + e" and e: "e < 64" and d: "d < 64"
    using split_4096 [of c] by (simp_all add: a_def d_def e_def)
  with assms have a: "a < 16" by linarith
  from lead_byte [of a 16 224] a
  have u1: "unat (byte_of (0xE0 + a)) = 0xE0 + a" and m1: "(0xE0 + a) mod 16 = a"
    by simp_all
  have enc: "utf8_encode_cp c = [byte_of (0xE0 + a), byte_of (0x80 + d), byte_of (0x80 + e)]"
    using assms by (simp add: utf8_encode_cp_def a_def d_def e_def)
  have lo: "a = 0 \<longrightarrow> 32 \<le> d" and hi: "a = 13 \<longrightarrow> d < 32"
    using assms c d e by linarith+
  have ok: "\<not> (if byte_of (0x80 + d) < 0xA0 then byte_of (0xE0 + a) = 0xE0
               else byte_of (0xE0 + a) = 0xED)"
    using lo hi by (auto simp: byte_less byte_eq u1 cont_byte(3) [OF d])
  show ?thesis
    unfolding enc using a ok cont_byte(1,2) [OF e] cont_byte(1,2) [OF d] u1 m1 c
    by (simp add: byte_less)
qed

lemma decode4:
  assumes "0x10000 \<le> c" "c < 0x110000"
  shows "utf8_decode (utf8_encode_cp c @ rest) = c # utf8_decode rest"
proof -
  define a b d e where "a = c div 262144" and "b = c div 4096 mod 64"
    and "d = c div 64 mod 64" and "e = c mod 64"
  have c: "c = a * 262144 + b * 4096 + d * 64 + e" and e: "e < 64" and d: "d < 64" and b: "b < 64"
    using split_262144 [of c] by (simp_all add: a_def b_def d_def e_def)
  with assms have a: "a < 5" by linarith
  from lead_byte [of a 8 240] a
  have u1: "unat (byte_of (0xF0 + a)) = 0xF0 + a" and m1: "(0xF0 + a) mod 8 = a"
    by simp_all
  have enc: "utf8_encode_cp c
      = [byte_of (0xF0 + a), byte_of (0x80 + b), byte_of (0x80 + d), byte_of (0x80 + e)]"
    using assms by (simp add: utf8_encode_cp_def a_def b_def d_def e_def)
  have lo: "a = 0 \<longrightarrow> 16 \<le> b" and hi: "a = 4 \<longrightarrow> b < 16"
    using assms c b d e by linarith+
  have ok: "\<not> (if byte_of (0x80 + b) < 0x90 then byte_of (0xF0 + a) = 0xF0
               else byte_of (0xF0 + a) = 0xF4)"
    using lo hi by (auto simp: byte_less byte_eq u1 cont_byte(3) [OF b])
  show ?thesis
    unfolding enc
    using a ok cont_byte(1,2) [OF e] cont_byte(1,2) [OF d] cont_byte(1,2) [OF b] u1 m1 c
    by (simp add: byte_less)
qed

lemma utf8_decode_encode_cp:
  assumes "scalar_value c"
  shows "utf8_decode (utf8_encode_cp c @ rest) = c # utf8_decode rest"
proof -
  from assms consider "c < 0x80" | "0x80 \<le> c \<and> c < 0x800"
    | "0x800 \<le> c \<and> c < 0x10000 \<and> \<not> (0xD800 \<le> c \<and> c < 0xE000)"
    | "0x10000 \<le> c \<and> c < 0x110000"
    unfolding scalar_value_def by linarith
  then show ?thesis
    by cases (use decode1 decode2 decode3 decode4 in blast)+
qed

lemma utf8_round_trip: "\<forall>c\<in>set s. scalar_value c \<Longrightarrow> utf8_decode (utf8_encode s) = s"
  by (induction s) (simp_all add: utf8_encode_def utf8_decode_encode_cp del: utf8_decode.simps(2))

subsection \<open>Serial types: round trip\<close>

lemma length_be_bytes: "length (be_bytes w x) = w"
  by (induction w arbitrary: x) simp_all

lemma be_uint_snoc: "be_uint (bs @ [b]) = be_uint bs * 256 + uint b"
  by (simp add: be_uint_def)

lemma be_uint_be_bytes: "be_uint (be_bytes w x) = x mod 2 ^ (8 * w)"
proof (induction w arbitrary: x)
  case 0
  show ?case by (simp add: be_uint_def)
next
  case (Suc w)
  have "uint (word_of_int x :: byte) = x mod 256"
    by (simp add: uint_word_of_int)
  moreover have "x mod (256 * 2 ^ (8 * w)) = 256 * (x div 256 mod 2 ^ (8 * w)) + x mod 256"
    by (rule zmod_zmult2_eq) simp
  moreover have "(2::int) ^ (8 * Suc w) = 256 * 2 ^ (8 * w)"
    by (simp add: power_add)
  ultimately show ?case
    using Suc.IH [of "x div 256"] by (simp add: be_uint_snoc)
qed

lemma from_bytes_signed_be_bytes:
  assumes "0 < w" and "- (2 ^ (8 * w - 1)) \<le> x" and "x < 2 ^ (8 * w - 1)"
  shows "from_bytes_signed (be_bytes w x) = x"
proof -
  have p: "(2::int) ^ (8 * w) = 2 * 2 ^ (8 * w - 1)"
    using assms(1) by (cases w) (simp_all add: power_add)
  show ?thesis
  proof (cases "0 \<le> x")
    case True
    with assms(3) p have "x mod 2 ^ (8 * w) = x" by simp
    with assms True show ?thesis
      by (simp add: from_bytes_signed_def Let_def be_uint_be_bytes length_be_bytes)
  next
    case False
    with assms(2) p have "x mod 2 ^ (8 * w) = x + 2 ^ (8 * w)"
      by (intro int_mod_pos_eq [where q = "-1"]) simp_all
    with assms False p show ?thesis
      by (simp add: from_bytes_signed_def Let_def be_uint_be_bytes length_be_bytes)
  qed
qed

lemma py_slice_middle:
  "py_slice (pre @ xs @ post) (int (length pre)) (int (length pre) + int (length xs)) = xs"
  using py_slice_take_drop [of "int (length pre)" "int (length xs)" "pre @ xs @ post"]
  by simp
lemma py_slice_encoded:
  "int (length enc) = n \<Longrightarrow>
   py_slice (pre @ enc @ post) (int (length pre)) (int (length pre) + n) = enc"
  using py_slice_middle [of pre enc post] by simp

lemma round_trip_int:
  assumes "0 < w" and "- (2 ^ (8 * w - 1)) \<le> i" and "i < 2 ^ (8 * w - 1)"
  shows "unpack_signed w (py_slice (pre @ be_bytes w i @ post) (int (length pre))
           (int (length pre) + int w)) = Inr i"
    and "from_bytes_signed (py_slice (pre @ be_bytes w i @ post) (int (length pre))
           (int (length pre) + int w)) = i"
  using assms
  by (simp_all add: py_slice_encoded length_be_bytes unpack_signed_def from_bytes_signed_be_bytes)

text \<open>
  C9. For every serial-type code in \<open>0..9\<close>, every even code from 12 and every odd
  code from 13, and every value of the code's type: decoding the value's on-disk form,
  wherever it lies in the data, gives the value back and consumes exactly its bytes.
\<close>

theorem serial_type_round_trip:
  assumes "value_of_code c v"
  shows "parse_serial_type (pre @ encode_value c v @ post) (int (length pre)) c
           = Inr (v, int (length (encode_value c v)))"
proof (cases v)
  case PyNone
  with assms show ?thesis by (simp add: parse_serial_type_def)
next
  case (PyInt i)
  with assms consider
      "c = 1" "- (2 ^ 7) \<le> i" "i < 2 ^ 7" | "c = 2" "- (2 ^ 15) \<le> i" "i < 2 ^ 15"
    | "c = 3" "- (2 ^ 23) \<le> i" "i < 2 ^ 23" | "c = 4" "- (2 ^ 31) \<le> i" "i < 2 ^ 31"
    | "c = 5" "- (2 ^ 47) \<le> i" "i < 2 ^ 47" | "c = 6" "- (2 ^ 63) \<le> i" "i < 2 ^ 63"
    | "c = 8" "i = 0" | "c = 9" "i = 1"
    by (auto simp: int_width_def)
  then show ?thesis
  proof cases
    case 1
    with round_trip_int(1) [of 1 i pre post] PyInt show ?thesis
      by (simp add: parse_serial_type_def int_width_def unpack_b_def length_be_bytes)
  next
    case 2
    with round_trip_int(1) [of 2 i pre post] PyInt show ?thesis
      by (simp add: parse_serial_type_def int_width_def unpack_h_def length_be_bytes)
  next
    case 3
    with round_trip_int(2) [of 3 i pre post] PyInt show ?thesis
      by (simp add: parse_serial_type_def int_width_def length_be_bytes)
  next
    case 4
    with round_trip_int(1) [of 4 i pre post] PyInt show ?thesis
      by (simp add: parse_serial_type_def int_width_def unpack_i_def length_be_bytes)
  next
    case 5
    with round_trip_int(2) [of 6 i pre post] PyInt show ?thesis
      by (simp add: parse_serial_type_def int_width_def length_be_bytes)
  next
    case 6
    with round_trip_int(1) [of 8 i pre post] PyInt show ?thesis
      by (simp add: parse_serial_type_def int_width_def unpack_q_def length_be_bytes)
  next
    case 7
    with PyInt show ?thesis by (simp add: parse_serial_type_def int_width_def)
  next
    case 8
    with PyInt show ?thesis by (simp add: parse_serial_type_def int_width_def)
  qed
next
  case (PyFloat f)
  have "uint f mod 2 ^ 64 = uint f"
    using uint_lt2p [of f] by (simp del: uint_lt2p)
  then have "word_of_int (be_uint (be_bytes 8 (uint f))) = f"
    by (simp add: be_uint_be_bytes)
  with assms PyFloat show ?thesis
    by (simp add: parse_serial_type_def unpack_d_def py_slice_encoded length_be_bytes)
next
  case (PyBytes bs)
  with assms have "12 \<le> c" "c mod 2 = 0" "int (length bs) = (c - 12) div 2"
    by (simp_all add: even_iff_mod_2_eq_zero)
  with PyBytes show ?thesis
    by (simp add: parse_serial_type_def Let_def py_slice_encoded)
next
  case (PyStr s)
  with assms have c: "13 \<le> c" "c mod 2 = 1" "int (length (utf8_encode s)) = (c - 13) div 2"
    and sv: "\<forall>cp\<in>set s. scalar_value cp"
    by (simp_all add: odd_iff_mod_2_eq_one)
  from c(3) have "py_slice (pre @ utf8_encode s @ post) (int (length pre))
                    (int (length pre) + (c - 13) div 2) = utf8_encode s"
    by (rule py_slice_encoded)
  with c PyStr utf8_round_trip [OF sv] show ?thesis
    by (simp add: parse_serial_type_def Let_def)
qed

text \<open>The text \<open>U+00E9\<close>, two bytes, serial type 17, at offset 1.\<close>

theorem serial_type_round_trip_witness:
  "parse_serial_type ([0xFF] @ [0xC3, 0xA9] @ [0x00]) 1 17 = Inr (PyStr [0xE9], 2)"
proof -
  have enc: "utf8_encode [0xE9] = [0xC3, 0xA9]"
    by (simp add: utf8_encode_def utf8_encode_cp_def byte_of_def)
  have "value_of_code 17 (PyStr [0xE9])"
    by (simp add: enc scalar_value_def)
  from serial_type_round_trip [OF this, of "[0xFF]" "[0x00]"] enc show ?thesis
    by simp
qed

end
